theory Spec2Isabelle
  imports Complex_Main
begin

section \<open>Python values: errors, indexing, decimal labels\<close>

text \<open>
  The module \<open>peano_addition.py\<close> stores a tree as a list of labels \<open>nodes\<close> and a list of
  child-index lists \<open>adj\<close>. Every exception the code can raise is a value of \<open>error\<close>:
  the first four are Python's own, \<open>OutOfRange\<close> and \<open>InvalidSpan\<close> are the two failures
  of the edit script application.
\<close>

datatype error = IndexError | ValueError | KeyError | ZeroDivisionError | OutOfRange | InvalidSpan

type_synonym tree = "string list \<times> nat list list"

definition ebind :: "error + 'a \<Rightarrow> ('a \<Rightarrow> error + 'b) \<Rightarrow> error + 'b" where
  "ebind m f = (case m of Inl e \<Rightarrow> Inl e | Inr x \<Rightarrow> f x)"

text \<open>\<open>xs[i]\<close> for a non-negative index: a read past the end raises.\<close>

definition get :: "'a list \<Rightarrow> nat \<Rightarrow> error + 'a" where
  "get xs i = (if i < length xs then Inr (xs ! i) else Inl IndexError)"

text \<open>
  \<open>str(z)\<close> and \<open>int(s)\<close> on decimal labels. \<open>py_int\<close> reads an optional sign followed by
  ASCII digits; every other string is a \<open>ValueError\<close> (labels padded with blanks or
  underscores, which \<open>int\<close> would also read, occur neither in the alphabet nor in the
  output of \<open>str\<close>).
\<close>

definition digit_char :: "nat \<Rightarrow> char" where
  "digit_char d = ''0123456789'' ! d"

definition digit_val :: "char \<Rightarrow> nat option" where
  "digit_val c =
     map_of [(CHR ''0'', 0), (CHR ''1'', 1), (CHR ''2'', 2), (CHR ''3'', 3), (CHR ''4'', 4),
             (CHR ''5'', 5), (CHR ''6'', 6), (CHR ''7'', 7), (CHR ''8'', 8), (CHR ''9'', 9)] c"

fun dec :: "nat \<Rightarrow> string" where
  "dec n = (if n < 10 then [digit_char n] else dec (n div 10) @ [digit_char (n mod 10)])"

declare dec.simps [simp del]

definition py_str :: "int \<Rightarrow> string" where
  "py_str z = (if z < 0 then CHR ''-'' # dec (nat (- z)) else dec (nat z))"

fun digits_val :: "nat \<Rightarrow> string \<Rightarrow> nat option" where
  "digits_val a [] = Some a"
| "digits_val a (c # cs) =
     (case digit_val c of None \<Rightarrow> None | Some d \<Rightarrow> digits_val (10 * a + d) cs)"

definition py_int :: "string \<Rightarrow> error + int" where
  "py_int s =
     (case s of
        [] \<Rightarrow> Inl ValueError
      | c # r \<Rightarrow>
          if c = CHR ''-'' then
            (if r = [] then Inl ValueError
             else case digits_val 0 r of None \<Rightarrow> Inl ValueError | Some n \<Rightarrow> Inr (- int n))
          else if c = CHR ''+'' then
            (if r = [] then Inl ValueError
             else case digits_val 0 r of None \<Rightarrow> Inl ValueError | Some n \<Rightarrow> Inr (int n))
          else (case digits_val 0 s of None \<Rightarrow> Inl ValueError | Some n \<Rightarrow> Inr (int n)))"

text \<open>
  The module constant \<open>alphabet\<close>: \<open>+\<close>, the ten digits as one-character labels, \<open>succ\<close>,
  \<open>root\<close>.
\<close>

definition alphabet :: "string list" where
  "alphabet = [''+''] @ map (\<lambda>c. [c]) ''0123456789'' @ [''succ'', ''root'']"

section \<open>Edit scripts\<close>

text \<open>
  The three edits of \<open>edist.tree_edits\<close>, with the arguments the module passes:
  \<open>Deletion(index)\<close>, \<open>Insertion(parent_index, child_index, label, num_children)\<close>,
  \<open>Replacement(index, label)\<close>. Positions are sums of an index and a shift, hence integers.
\<close>

datatype edit = Deletion int | Insertion int nat string nat | Replacement int string

text \<open>
  Modelled from the spec: \<open>Script.apply\<close> and the three edits' effect on a tree belong to
  the library \<open>edist\<close>, which is not part of the sources; the definitions below follow
  section 4.2 of the specification. A deletion splices the node out of its parent's
  child list, its own children taking its place there (the base-case rule deletes a
  \<open>+\<close> whose left operand survives as a child of the former parent), removes it from
  the node sequence and decrements every recorded index greater than its position. An
  insertion creates the new node at the position of child \<open>slot\<close> of node \<open>pos\<close> (one past
  the rightmost descendant of \<open>pos\<close> when it takes no child and \<open>slot\<close> is the child
  count), hands it \<open>num\<close> consecutive children and increments every recorded index from
  that position on; it fails with \<open>InvalidSpan\<close> when \<open>slot + num\<close> exceeds the child
  count. A replacement swaps the label. A position outside the tree is \<open>OutOfRange\<close>.
\<close>

definition remove_nth :: "nat \<Rightarrow> 'a list \<Rightarrow> 'a list" where
  "remove_nth p xs = take p xs @ drop (Suc p) xs"

definition insert_nth :: "nat \<Rightarrow> 'a \<Rightarrow> 'a list \<Rightarrow> 'a list" where
  "insert_nth p x xs = take p xs @ x # drop p xs"

definition splice :: "nat \<Rightarrow> nat list \<Rightarrow> nat list \<Rightarrow> nat list" where
  "splice p cs l = concat (map (\<lambda>c. if c = p then cs else [c]) l)"

definition dec_above :: "nat \<Rightarrow> nat \<Rightarrow> nat" where
  "dec_above p c = (if p < c then c - 1 else c)"

definition inc_from :: "nat \<Rightarrow> nat \<Rightarrow> nat" where
  "inc_from p c = (if p \<le> c then c + 1 else c)"

fun rightmost :: "nat \<Rightarrow> nat list list \<Rightarrow> nat \<Rightarrow> nat" where
  "rightmost 0 adj j = j"
| "rightmost (Suc fuel) adj j =
     (if j < length adj \<and> adj ! j \<noteq> [] then rightmost fuel adj (last (adj ! j)) else j)"

definition apply_deletion :: "int \<Rightarrow> tree \<Rightarrow> error + tree" where
  "apply_deletion pos t =
     (case t of (nodes, adj) \<Rightarrow>
        if pos < 0 \<or> int (length nodes) \<le> pos \<or> int (length adj) \<le> pos then Inl OutOfRange
        else
          let p = nat pos; cs = adj ! p
          in Inr (remove_nth p nodes,
                  map (\<lambda>l. map (dec_above p) (splice p cs l)) (remove_nth p adj)))"

definition apply_insertion :: "int \<Rightarrow> nat \<Rightarrow> string \<Rightarrow> nat \<Rightarrow> tree \<Rightarrow> error + tree" where
  "apply_insertion pos slot label num t =
     (case t of (nodes, adj) \<Rightarrow>
        if pos < 0 \<or> int (length nodes) \<le> pos \<or> int (length adj) \<le> pos then Inl OutOfRange
        else
          let p = nat pos; cs = adj ! p
          in if length cs < slot + num then Inl InvalidSpan
             else
               let idx = (if slot < length cs then cs ! slot
                          else Suc (rightmost (length adj) adj p));
                   taken = take num (drop slot cs);
                   kept = take slot cs @ idx # map (inc_from idx) (drop (slot + num) cs);
                   adj1 = (map (map (inc_from idx)) adj)[p := kept]
               in Inr (insert_nth idx label nodes,
                       insert_nth idx (map (inc_from idx) taken) adj1))"

definition apply_replacement :: "int \<Rightarrow> string \<Rightarrow> tree \<Rightarrow> error + tree" where
  "apply_replacement pos label t =
     (case t of (nodes, adj) \<Rightarrow>
        if pos < 0 \<or> int (length nodes) \<le> pos then Inl OutOfRange
        else Inr (nodes[nat pos := label], adj))"

fun apply_edit :: "edit \<Rightarrow> tree \<Rightarrow> error + tree" where
  "apply_edit (Deletion pos) t = apply_deletion pos t"
| "apply_edit (Insertion pos slot label num) t = apply_insertion pos slot label num t"
| "apply_edit (Replacement pos label) t = apply_replacement pos label t"

fun apply_script :: "edit list \<Rightarrow> tree \<Rightarrow> error + tree" where
  "apply_script [] t = Inr t"
| "apply_script (e # es) t = ebind (apply_edit e t) (apply_script es)"

section \<open>The rewrite pass of \<open>_simplify\<close>\<close>

text \<open>
  \<open>pi = np.zeros(len(nodes)); for i in range(len(nodes)): for j in adj[i]: pi[j] = i\<close>.
\<close>

fun set_parents :: "nat \<Rightarrow> nat list \<Rightarrow> nat list \<Rightarrow> error + nat list" where
  "set_parents i [] pi' = Inr pi'"
| "set_parents i (j # js) pi' =
     (if j < length pi' then set_parents i js (pi'[j := i]) else Inl IndexError)"

fun parents_loop :: "nat list list \<Rightarrow> nat list \<Rightarrow> nat list \<Rightarrow> error + nat list" where
  "parents_loop adj [] pi' = Inr pi'"
| "parents_loop adj (i # is) pi' =
     ebind (get adj i) (\<lambda>cs. ebind (set_parents i cs pi') (parents_loop adj is))"

definition parents :: "string list \<Rightarrow> nat list list \<Rightarrow> error + nat list" where
  "parents nodes adj = parents_loop adj [0..<length nodes] (replicate (length nodes) 0)"

text \<open>The numpy slice updates \<open>a[lo:hi] += d\<close> and \<open>a[lo:] += d\<close> for non-negative bounds.\<close>

definition add_slice :: "nat \<Rightarrow> nat \<Rightarrow> int \<Rightarrow> int list \<Rightarrow> int list" where
  "add_slice lo hi d a = map (\<lambda>j. if lo \<le> j \<and> j < hi then a ! j + d else a ! j) [0..<length a]"

definition add_from :: "nat \<Rightarrow> int \<Rightarrow> int list \<Rightarrow> int list" where
  "add_from lo d a = add_slice lo (length a) d a"

text \<open>
  The body of \<open>for i in range(len(nodes))\<close> in \<open>_simplify\<close>: the state is the script so far
  and the array \<open>index_shift\<close>. \<open>nodes[i]\<close>, \<open>index_shift[i]\<close> and \<open>pi[i]\<close> are in range
  because \<open>i\<close> is; \<open>index_shift[right]\<close> and \<open>index_shift[child]\<close> are read after the
  successful read of \<open>nodes\<close> at the same index, all three arrays having one length.
\<close>

definition match_plus ::
  "string list \<Rightarrow> nat list list \<Rightarrow> nat \<Rightarrow> edit list \<times> int list \<Rightarrow> error + edit list \<times> int list" where
  "match_plus nodes adj i st =
     (case st of (script, index_shift) \<Rightarrow>
        ebind (get adj i) (\<lambda>cs. ebind (get cs 1) (\<lambda>right. ebind (get nodes right) (\<lambda>rl.
          if rl = ''0'' then
            (let script1 = script @ [Deletion (int i + index_shift ! i)];
                 shift1 = add_from (i + 1) (- 1) index_shift;
                 script2 = script1 @ [Deletion (int right + shift1 ! right)];
                 shift2 = add_from (right + 1) (- 1) shift1
             in Inr (script2, shift2))
          else if rl = ''succ'' then
            (let script1 = script @ [Insertion (int i + index_shift ! i) 0 ''succ'' 1];
                 shift1 = add_slice (i + 1) (right + 1) 1 index_shift;
                 script2 = script1 @ [Deletion (int right + shift1 ! right)]
             in Inr (script2, shift1))
          else if rl \<noteq> ''+'' then
            ebind (py_int rl) (\<lambda>n.
              let pred = py_str (n - 1);
                  script1 = script @ [Insertion (int i + index_shift ! i) 1 ''succ'' 1];
                  shift1 = add_from right 1 index_shift;
                  script2 = script1 @ [Replacement (int right + shift1 ! right) pred]
              in Inr (script2, shift1))
          else Inr (script, index_shift)))))"

definition match_succ ::
  "string list \<Rightarrow> nat list list \<Rightarrow> nat \<Rightarrow> edit list \<times> int list \<Rightarrow> error + edit list \<times> int list" where
  "match_succ nodes adj i st =
     (case st of (script, index_shift) \<Rightarrow>
        ebind (get adj i) (\<lambda>cs. ebind (get cs 0) (\<lambda>child. ebind (get nodes child) (\<lambda>cl.
          if cl \<noteq> ''succ'' \<and> cl \<noteq> ''+'' then
            (let script1 = script @ [Deletion (int i + index_shift ! i)];
                 shift1 = add_from (i + 1) (- 1) index_shift
             in ebind (py_int cl) (\<lambda>n.
                  Inr (script1 @ [Replacement (int child + shift1 ! child)
                                    (py_str ((n + 1) mod 10))], shift1)))
          else Inr (script, index_shift)))))"

definition match_node ::
  "string list \<Rightarrow> nat list list \<Rightarrow> nat list \<Rightarrow> nat \<Rightarrow> edit list \<times> int list
     \<Rightarrow> error + edit list \<times> int list" where
  "match_node nodes adj pi' i st =
     (if nodes ! i = ''+'' then match_plus nodes adj i st
      else if nodes ! i = ''succ''
              \<and> (nodes ! (pi' ! i) \<noteq> ''+'' \<or> int (pi' ! i) = int i - 1)
           then match_succ nodes adj i st
      else Inr st)"

fun match_loop ::
  "string list \<Rightarrow> nat list list \<Rightarrow> nat list \<Rightarrow> nat list \<Rightarrow> edit list \<times> int list
     \<Rightarrow> error + edit list \<times> int list" where
  "match_loop nodes adj pi' [] st = Inr st"
| "match_loop nodes adj pi' (i # is) st =
     ebind (match_node nodes adj pi' i st) (match_loop nodes adj pi' is)"

definition matcher :: "tree \<Rightarrow> error + edit list" where
  "matcher t =
     (case t of (nodes, adj) \<Rightarrow>
        ebind (parents nodes adj) (\<lambda>pi'.
          ebind (match_loop nodes adj pi' [0..<length nodes] ([], replicate (length nodes) 0))
            (\<lambda>st. Inr (fst st))))"

text \<open>
  \<open>while True\<close> of \<open>_simplify\<close>: the loop has no exit but the empty script, so it is a
  partial function; \<open>None\<close> is a run that never returns.
\<close>

partial_function (option) simplify_loop :: "tree \<Rightarrow> tree list \<Rightarrow> (error + tree list) option" where
  "simplify_loop t time_series =
     (case matcher t of
        Inl e \<Rightarrow> Some (Inl e)
      | Inr script \<Rightarrow>
          if length script = 0 then Some (Inr time_series)
          else (case apply_script script t of
                  Inl e \<Rightarrow> Some (Inl e)
                | Inr t' \<Rightarrow> simplify_loop t' (time_series @ [t'])))"

declare simplify_loop.simps [code]

definition simplify :: "tree \<Rightarrow> (error + tree list) option" where
  "simplify t = simplify_loop t [t]"

text \<open>
  The trees of a run: \<open>reach t u\<close> holds when the loop, started on \<open>t\<close>, comes to the tree
  \<open>u\<close>, that is, each pass before it emitted a script that is not empty and that applied
  without error.
\<close>

inductive reach :: "tree \<Rightarrow> tree \<Rightarrow> bool" for t where
  start: "reach t t"
| pass: "reach t u \<Longrightarrow> matcher u = Inr s \<Longrightarrow> s \<noteq> [] \<Longrightarrow> apply_script s u = Inr u'
         \<Longrightarrow> reach t u'"

section \<open>The alignment of a tree with its successor\<close>

text \<open>
  The first loop of \<open>peano_alignment\<close>: the state is \<open>index_shift\<close> and the dictionary
  \<open>left_to_right\<close>. The arguments \<open>next_nodes\<close> and \<open>next_adj\<close> are never read.
\<close>

definition align_plus ::
  "string list \<Rightarrow> nat list list \<Rightarrow> nat \<Rightarrow> int list \<times> (nat \<rightharpoonup> int)
     \<Rightarrow> error + int list \<times> (nat \<rightharpoonup> int)" where
  "align_plus nodes adj i st =
     (case st of (index_shift, left_to_right) \<Rightarrow>
        ebind (get adj i) (\<lambda>cs. ebind (get cs 1) (\<lambda>right. ebind (get nodes right) (\<lambda>rl.
          if rl = ''0'' then
            (let l1 = left_to_right(i \<mapsto> - 1);
                 shift1 = add_from i (- 1) index_shift;
                 l2 = l1(right \<mapsto> - 1);
                 shift2 = add_from (right + 1) (- 1) shift1
             in Inr (shift2, l2))
          else if rl = ''succ'' then
            Inr (add_slice (i + 1) (right + 1) 1 index_shift, left_to_right(right \<mapsto> - 1))
          else if rl \<noteq> ''+'' then Inr (add_from right 1 index_shift, left_to_right)
          else Inr (index_shift, left_to_right)))))"

definition align_succ ::
  "string list \<Rightarrow> nat list list \<Rightarrow> nat \<Rightarrow> int list \<times> (nat \<rightharpoonup> int)
     \<Rightarrow> error + int list \<times> (nat \<rightharpoonup> int)" where
  "align_succ nodes adj i st =
     (case st of (index_shift, left_to_right) \<Rightarrow>
        ebind (get adj i) (\<lambda>cs. ebind (get cs 0) (\<lambda>child. ebind (get nodes child) (\<lambda>cl.
          if cl \<noteq> ''succ'' \<and> cl \<noteq> ''+'' then
            Inr (add_from i (- 1) index_shift, left_to_right(i \<mapsto> - 1))
          else Inr (index_shift, left_to_right)))))"

text \<open>\<open>if i not in left_to_right: left_to_right[i] = i + index_shift[i]\<close>.\<close>

definition align_record ::
  "nat \<Rightarrow> int list \<times> (nat \<rightharpoonup> int) \<Rightarrow> error + int list \<times> (nat \<rightharpoonup> int)" where
  "align_record i st =
     (case st of (index_shift, left_to_right) \<Rightarrow>
        if left_to_right i = None
        then Inr (index_shift, left_to_right(i \<mapsto> int i + index_shift ! i))
        else Inr (index_shift, left_to_right))"

definition align_node ::
  "string list \<Rightarrow> nat list list \<Rightarrow> nat list \<Rightarrow> nat \<Rightarrow> int list \<times> (nat \<rightharpoonup> int)
     \<Rightarrow> error + int list \<times> (nat \<rightharpoonup> int)" where
  "align_node nodes adj pi' i st =
     ebind
       (if nodes ! i = ''+'' then align_plus nodes adj i st
        else if nodes ! i = ''succ''
                \<and> (nodes ! (pi' ! i) \<noteq> ''+'' \<or> int (pi' ! i) = int i - 1)
             then align_succ nodes adj i st
        else Inr st)
       (align_record i)"

fun align_loop ::
  "string list \<Rightarrow> nat list list \<Rightarrow> nat list \<Rightarrow> nat list \<Rightarrow> int list \<times> (nat \<rightharpoonup> int)
     \<Rightarrow> error + int list \<times> (nat \<rightharpoonup> int)" where
  "align_loop nodes adj pi' [] st = Inr st"
| "align_loop nodes adj pi' (i # is) st =
     ebind (align_node nodes adj pi' i st) (align_loop nodes adj pi' is)"

text \<open>
  The second loop, \<open>while i < len(nodes)\<close>, with the cursor \<open>j\<close> into the successor: the
  inner \<open>while j < left_to_right[i]\<close> appends \<open>(-1, j)\<close> for every \<open>j\<close> up to the mapped
  index; the pair appended for \<open>i\<close> then carries the cursor itself.
\<close>

fun merge_loop ::
  "(nat \<rightharpoonup> int) \<Rightarrow> nat list \<Rightarrow> int \<Rightarrow> (int \<times> int) list \<Rightarrow> error + (int \<times> int) list" where
  "merge_loop left_to_right [] j alignment = Inr alignment"
| "merge_loop left_to_right (i # is) j alignment =
     (case left_to_right i of
        None \<Rightarrow> Inl KeyError
      | Some v \<Rightarrow>
          if v < 0 then merge_loop left_to_right is j (alignment @ [(int i, - 1)])
          else
            let j' = max j v
            in merge_loop left_to_right is (j' + 1)
                 (alignment @ map (\<lambda>k. (- 1, k)) [j..v - 1] @ [(int i, j')]))"

definition left_to_right_of :: "string list \<Rightarrow> nat list list \<Rightarrow> error + (nat \<rightharpoonup> int)" where
  "left_to_right_of nodes adj =
     ebind (parents nodes adj) (\<lambda>pi'.
       ebind (align_loop nodes adj pi' [0..<length nodes]
                (replicate (length nodes) 0, Map.empty))
         (\<lambda>st. Inr (snd st)))"

definition peano_alignment :: "tree \<Rightarrow> tree \<Rightarrow> error + (int \<times> int) list" where
  "peano_alignment t next_t =
     (case t of (nodes, adj) \<Rightarrow>
        ebind (left_to_right_of nodes adj) (\<lambda>left_to_right.
          merge_loop left_to_right [0..<length nodes] 0 []))"

text \<open>The source indices of an alignment, in the order of their pairs.\<close>

definition sources :: "(int \<times> int) list \<Rightarrow> int list" where
  "sources al = filter (\<lambda>i. 0 \<le> i) (map fst al)"

text \<open>
  An alignment follows the cursor of the merge loop for the mapping \<open>l\<close> when, read from
  the cursor \<open>j\<close> on, a pair \<open>(-1, k)\<close> carries the cursor and stands only where the cursor
  is below the mapped index of the next source node; the pair of a node with a negative
  mapped index is \<open>(i, -1)\<close>; and the pair of every other node carries the cursor, which
  is then at or above the mapped index of the node. Every pair that carries the cursor
  moves it on by one.
\<close>

fun next_source :: "(int \<times> int) list \<Rightarrow> nat option" where
  "next_source [] = None"
| "next_source ((x, y) # ps) = (if x = - 1 then next_source ps else Some (nat x))"

fun follows_cursor :: "(nat \<rightharpoonup> int) \<Rightarrow> int \<Rightarrow> (int \<times> int) list \<Rightarrow> bool" where
  "follows_cursor l j [] = True"
| "follows_cursor l j ((x, y) # ps) =
     (if x = - 1
      then y = j
           \<and> (case next_source ps of
                 None \<Rightarrow> False
               | Some i \<Rightarrow> (case l i of None \<Rightarrow> False | Some v \<Rightarrow> j < v))
           \<and> follows_cursor l (j + 1) ps
      else (case l (nat x) of
              None \<Rightarrow> False
            | Some v \<Rightarrow>
                if v < 0 then y = - 1 \<and> follows_cursor l j ps
                else v \<le> j \<and> y = j \<and> follows_cursor l (j + 1) ps))"

section \<open>The decode step \<open>predict_step\<close>\<close>

text \<open>
  The network is an external collaborator: its answer for the tree is the parameter
  \<open>prediction\<close>, one \<open>delta\<close> score and one row of \<open>types\<close>, \<open>Cidx\<close> and \<open>Cnum\<close> per node.
  A score is a float: a number or \<open>NaN\<close>. As for floats, every comparison with \<open>NaN\<close> is
  false and \<open>NaN\<close> goes through negation, \<open>abs\<close> and the arithmetic; the numbers are
  rationals, compared with \<open>0.5\<close> exactly (an infinite score compares like a number
  beyond all others). Division occurs only in the constant \<open>1 / 2\<close>.
\<close>

datatype score = NaN | Fin rat

instantiation score :: "{zero, one, plus, uminus, abs, inverse, ord}"
begin

definition zero_score :: score where
  "0 = Fin 0"

definition one_score :: score where
  "1 = Fin 1"

definition plus_score :: "score \<Rightarrow> score \<Rightarrow> score" where
  "x + y = (case (x, y) of (Fin a, Fin b) \<Rightarrow> Fin (a + b) | _ \<Rightarrow> NaN)"

definition uminus_score :: "score \<Rightarrow> score" where
  "- x = (case x of Fin a \<Rightarrow> Fin (- a) | NaN \<Rightarrow> NaN)"

definition abs_score :: "score \<Rightarrow> score" where
  "\<bar>x\<bar> = (case x of Fin a \<Rightarrow> Fin \<bar>a\<bar> | NaN \<Rightarrow> NaN)"

definition inverse_score :: "score \<Rightarrow> score" where
  "inverse x = (case x of Fin a \<Rightarrow> if a = 0 then NaN else Fin (inverse a) | NaN \<Rightarrow> NaN)"

definition divide_score :: "score \<Rightarrow> score \<Rightarrow> score" where
  "divide x y =
     (case (x, y) of (Fin a, Fin b) \<Rightarrow> if b = 0 then NaN else Fin (a / b) | _ \<Rightarrow> NaN)"

definition less_eq_score :: "score \<Rightarrow> score \<Rightarrow> bool" where
  "x \<le> y = (case (x, y) of (Fin a, Fin b) \<Rightarrow> a \<le> b | _ \<Rightarrow> False)"

definition less_score :: "score \<Rightarrow> score \<Rightarrow> bool" where
  "x < y = (case (x, y) of (Fin a, Fin b) \<Rightarrow> a < b | _ \<Rightarrow> False)"

instance ..

end

instance score :: semigroup_add
  by standard (auto simp: plus_score_def split: score.splits)

instance score :: numeral ..

record prediction =
  delta :: "score list"
  types :: "score list list"
  Cidx :: "score list list"
  Cnum :: "score list list"

text \<open>
  \<open>torch.argmax\<close> returns the first index of a maximal entry, where \<open>NaN\<close> counts as above
  every number, and fails on an empty row.
\<close>

fun argmax_from :: "score \<Rightarrow> nat \<Rightarrow> nat \<Rightarrow> score list \<Rightarrow> nat" where
  "argmax_from best besti k [] = besti"
| "argmax_from best besti k (x # xs) =
     (if best < x \<or> (x = NaN \<and> best \<noteq> NaN) then argmax_from x k (Suc k) xs
      else argmax_from best besti (Suc k) xs)"

definition argmax :: "score list \<Rightarrow> error + nat" where
  "argmax row = (case row of [] \<Rightarrow> Inl IndexError | x # xs \<Rightarrow> Inr (argmax_from x 0 1 xs))"

definition predicted_type :: "string list \<Rightarrow> prediction \<Rightarrow> nat \<Rightarrow> error + string" where
  "predicted_type alpha pr i =
     ebind (get (types pr) i) (\<lambda>row. ebind (argmax row) (\<lambda>k. get alpha k))"

text \<open>First loop: replacements.\<close>

fun replace_loop ::
  "string list \<Rightarrow> string list \<Rightarrow> prediction \<Rightarrow> nat list \<Rightarrow> edit list \<Rightarrow> error + edit list" where
  "replace_loop nodes alpha pr [] script = Inr script"
| "replace_loop nodes alpha pr (i # is) script =
     ebind (get (delta pr) i) (\<lambda>d.
       if \<bar>d\<bar> > 1 / 2 then replace_loop nodes alpha pr is script
       else ebind (predicted_type alpha pr i) (\<lambda>type_pred.
         if type_pred \<noteq> nodes ! i
         then replace_loop nodes alpha pr is (script @ [Replacement (int i) type_pred])
         else replace_loop nodes alpha pr is script))"

text \<open>\<open>C = 0; while c + C < len(adj[i]) and Cnum[i, c + C] > 0.5: C += 1\<close>.\<close>

function span_loop :: "score list \<Rightarrow> nat \<Rightarrow> nat \<Rightarrow> nat \<Rightarrow> error + nat" where
  "span_loop row len c C =
     (if c + C < len then
        (case get row (c + C) of
           Inl e \<Rightarrow> Inl e
         | Inr x \<Rightarrow> if x > 1 / 2 then span_loop row len c (C + 1) else Inr C)
      else Inr C)"
  by pat_completeness auto
termination
  by (relation "measure (\<lambda>(row, len, c, C). len - (c + C))") auto

declare span_loop.simps [simp del]

text \<open>\<open>j = i; while adj[j]: j = adj[j][-1]\<close> need not end on an arbitrary adjacency list.\<close>

partial_function (option) last_desc :: "nat list list \<Rightarrow> nat \<Rightarrow> (error + nat) option" where
  "last_desc adj j =
     (if j < length adj then
        (if adj ! j = [] then Some (Inr j) else last_desc adj (last (adj ! j)))
      else Some (Inl IndexError))"

declare last_desc.simps [code]

definition insertion_of ::
  "nat list list \<Rightarrow> string list \<Rightarrow> prediction \<Rightarrow> nat \<Rightarrow> error + (nat \<times> string \<times> nat)" where
  "insertion_of adj alpha pr i =
     ebind (predicted_type alpha pr i) (\<lambda>type_pred.
       ebind (get (Cidx pr) i) (\<lambda>crow. ebind (argmax crow) (\<lambda>c.
         ebind (get adj i) (\<lambda>cs. ebind (get (Cnum pr) i) (\<lambda>nrow.
           ebind (span_loop nrow (length cs) c 0) (\<lambda>C. Inr (c, type_pred, C)))))))"

definition next_index :: "nat list list \<Rightarrow> nat \<Rightarrow> nat \<Rightarrow> (error + nat) option" where
  "next_index adj i c =
     (if c < length (adj ! i) then Some (Inr (adj ! i ! c))
      else map_option (map_sum id Suc) (last_desc adj i))"

text \<open>Second loop: insertions, with the array \<open>ins_shift\<close>.\<close>

fun insert_loop ::
  "nat list list \<Rightarrow> string list \<Rightarrow> prediction \<Rightarrow> nat list \<Rightarrow> edit list \<times> int list
     \<Rightarrow> (error + edit list \<times> int list) option" where
  "insert_loop adj alpha pr [] st = Some (Inr st)"
| "insert_loop adj alpha pr (i # is) st =
     (case get (delta pr) i of
        Inl e \<Rightarrow> Some (Inl e)
      | Inr d \<Rightarrow>
          if d \<le> 1 / 2 then insert_loop adj alpha pr is st
          else
            (case insertion_of adj alpha pr i of
               Inl e \<Rightarrow> Some (Inl e)
             | Inr (c, type_pred, C) \<Rightarrow>
                 (case next_index adj i c of
                    None \<Rightarrow> None
                  | Some (Inl e) \<Rightarrow> Some (Inl e)
                  | Some (Inr j) \<Rightarrow>
                      insert_loop adj alpha pr is
                        (fst st @ [Insertion (int i + snd st ! i) c type_pred C],
                         add_from j 1 (snd st)))))"

text \<open>Third loop: deletions, \<open>for i in range(len(nodes)-1, -1, -1)\<close>.\<close>

fun delete_loop :: "prediction \<Rightarrow> int list \<Rightarrow> nat list \<Rightarrow> edit list \<Rightarrow> error + edit list" where
  "delete_loop pr ins_shift [] script = Inr script"
| "delete_loop pr ins_shift (i # is) script =
     ebind (get (delta pr) i) (\<lambda>d.
       if d \<ge> - (1 / 2) then delete_loop pr ins_shift is script
       else delete_loop pr ins_shift is (script @ [Deletion (int i + ins_shift ! i)]))"

definition predict_script ::
  "prediction \<Rightarrow> tree \<Rightarrow> string list option \<Rightarrow> (error + edit list) option" where
  "predict_script pr t alpha_opt =
     (case t of (nodes, adj) \<Rightarrow>
        let alpha = (case alpha_opt of None \<Rightarrow> alphabet | Some a \<Rightarrow> a);
            n = length nodes
        in case replace_loop nodes alpha pr [0..<n] [] of
             Inl e \<Rightarrow> Some (Inl e)
           | Inr script1 \<Rightarrow>
               (case insert_loop adj alpha pr [0..<n] (script1, replicate n 0) of
                  None \<Rightarrow> None
                | Some (Inl e) \<Rightarrow> Some (Inl e)
                | Some (Inr (script2, ins_shift)) \<Rightarrow>
                    Some (delete_loop pr ins_shift (rev [0..<n]) script2)))"

definition predict_step ::
  "prediction \<Rightarrow> tree \<Rightarrow> string list option \<Rightarrow> (error + edit list \<times> tree) option" where
  "predict_step pr t alpha_opt =
     map_option (\<lambda>r. ebind r (\<lambda>script. ebind (apply_script script t) (\<lambda>t'. Inr (script, t'))))
       (predict_script pr t alpha_opt)"

text \<open>
  The three phases of the decode step in the words of its description: replacements for
  the kept nodes whose most likely label differs from the current one; insertions in
  ascending node order, each with the most likely child slot and the span extended
  greedily over the association scores above \<open>0.5\<close>, within the child count; deletions
  in descending node order, offset by the insertion shifts. \<open>shift_table ins adj pr n k\<close> is
  the insertion shift table once the nodes below \<open>k\<close> are decoded. Which nodes a phase
  takes is a parameter: \<open>claimed_keep\<close>, \<open>claimed_insert\<close> and \<open>claimed_delete\<close> are the
  conditions of the description (absolute value at most \<open>0.5\<close>, greater than \<open>0.5\<close>, less
  than \<open>-0.5\<close>); \<open>keeps\<close>, \<open>inserts\<close> and \<open>deletes\<close> are the conditions under which the three
  loops do not skip a node, which differ from them on \<open>NaN\<close>.
\<close>

definition claimed_keep :: "score \<Rightarrow> bool" where
  "claimed_keep d = (\<bar>d\<bar> \<le> 1 / 2)"

definition claimed_insert :: "score \<Rightarrow> bool" where
  "claimed_insert d = (1 / 2 < d)"

definition claimed_delete :: "score \<Rightarrow> bool" where
  "claimed_delete d = (d < - (1 / 2))"

definition keeps :: "score \<Rightarrow> bool" where
  "keeps d = (\<not> \<bar>d\<bar> > 1 / 2)"

definition inserts :: "score \<Rightarrow> bool" where
  "inserts d = (\<not> d \<le> 1 / 2)"

definition deletes :: "score \<Rightarrow> bool" where
  "deletes d = (\<not> d \<ge> - (1 / 2))"










section \<open>The generator \<open>_generate_tree\<close>\<close>

text \<open>
  \<open>np.random.choice(len(p), 1, p = p)\<close> is an external source of randomness: the successive
  draws are the parameter \<open>draws\<close>. A draw is possible when its probability is positive:
  \<open>prob_plus\<close> is \<open>0.5\<close> at index 0, zero at index 1 and \<open>1 / (2 * max_input)\<close> from index 2 to
  \<open>max_input + 1\<close>; \<open>prob_non_plus\<close> is zero at indices 0 and 1. The result is \<open>None\<close> when the
  draws are used up before the stack is empty or when a draw is impossible.
\<close>

definition possible_draw :: "nat \<Rightarrow> bool \<Rightarrow> nat \<Rightarrow> bool" where
  "possible_draw max_input additions_left r =
     ((additions_left \<and> r = 0) \<or> (2 \<le> r \<and> r \<le> max_input + 1))"

fun generate_loop :: "nat \<Rightarrow> int \<Rightarrow> nat list \<Rightarrow> nat list \<Rightarrow> tree \<Rightarrow> tree option" where
  "generate_loop max_input max_additions draws [] t = Some t"
| "generate_loop max_input max_additions [] (p # stk) t = None"
| "generate_loop max_input max_additions (r # draws) (p # stk) t =
     (if \<not> possible_draw max_input (max_additions > 0) r then None
      else
        let i = length (fst t);
            label = alphabet ! r;
            nodes = fst t @ [label];
            adj = (snd t @ [[]])[p := (snd t @ [[]]) ! p @ [i]]
        in if label = ''+''
           then generate_loop max_input (max_additions - 1) draws (i # i # stk) (nodes, adj)
           else generate_loop max_input max_additions draws stk (nodes, adj))"

definition generate_tree :: "int \<Rightarrow> int \<Rightarrow> nat list \<Rightarrow> (error + tree) option" where
  "generate_tree max_additions max_input draws =
     (if max_input < 1 then Some (Inl ValueError)
      else
        let m = (if max_input > 9 then max_input mod 10 else max_input)
        in if m = 0 then Some (Inl ZeroDivisionError)
           else map_option Inr
                  (generate_loop (nat m) max_additions draws [0] ([''root''], [[]])))"

text \<open>
  The labels \<open>1\<close> to \<open>max_input\<close> of the alphabet, and the loop invariant of the generator:
  every node on the stack still waits for as many children as it occurs there.
\<close>

definition numerals :: "nat \<Rightarrow> string list" where
  "numerals max_input = take max_input (drop 2 alphabet)"

definition gen_inv :: "nat \<Rightarrow> nat list \<Rightarrow> tree \<Rightarrow> bool" where
  "gen_inv max_input stk t =
     (case t of (nodes, adj) \<Rightarrow>
        length adj = length nodes \<and> 0 < length nodes \<and> nodes ! 0 = ''root''
        \<and> (\<forall>p \<in> set stk. p < length nodes)
        \<and> length (adj ! 0) + count_list stk 0 = 1
        \<and> (\<forall>i. 0 < i \<and> i < length nodes \<longrightarrow>
              (if nodes ! i = ''+'' then length (adj ! i) + count_list stk i = 2
               else nodes ! i \<in> set (numerals max_input) \<and> adj ! i = [] \<and> i \<notin> set stk))
        \<and> (\<forall>i < length nodes. \<forall>c \<in> set (adj ! i). i < c \<and> c < length nodes))"

section \<open>Well-formed trees as forests\<close>

text \<open>
  The trees the module works on are numbered in preorder. A forest is the empty forest
  or a first tree \<open>T l c s\<close> (label, forest of children, forest of the following siblings);
  \<open>flat\<close> is its node list, \<open>fadj k\<close> its adjacency list when its first node has index
  \<open>k\<close>, and \<open>enc\<close> the pair \<open>(nodes, adj)\<close> the module is given. A context is a forest with
  a hole at the node position \<open>cpos\<close>; the hole holds the forest that starts at that node
  and runs to the end of its sibling list.
\<close>

datatype forest = E | T string forest forest

fun fsize :: "forest \<Rightarrow> nat" where
  "fsize E = 0"
| "fsize (T l c s) = Suc (fsize c + fsize s)"

fun flat :: "forest \<Rightarrow> string list" where
  "flat E = []"
| "flat (T l c s) = l # flat c @ flat s"

fun kids :: "nat \<Rightarrow> forest \<Rightarrow> nat list" where
  "kids k E = []"
| "kids k (T l c s) = k # kids (Suc (k + fsize c)) s"

fun fadj :: "nat \<Rightarrow> forest \<Rightarrow> nat list list" where
  "fadj k E = []"
| "fadj k (T l c s) = kids (Suc k) c # fadj (Suc k) c @ fadj (Suc (k + fsize c)) s"

fun fapp :: "forest \<Rightarrow> forest \<Rightarrow> forest" where
  "fapp E f = f"
| "fapp (T l c s) f = T l c (fapp s f)"

definition enc :: "forest \<Rightarrow> tree" where
  "enc f = (flat f, fadj 0 f)"

datatype ctx = Hole | Down string ctx forest | Right string forest ctx

fun plug :: "ctx \<Rightarrow> forest \<Rightarrow> forest" where
  "plug Hole f = f"
| "plug (Down l C s) f = T l (plug C f) s"
| "plug (Right l c C) f = T l c (plug C f)"

fun cpos :: "ctx \<Rightarrow> nat" where
  "cpos Hole = 0"
| "cpos (Down l C s) = Suc (cpos C)"
| "cpos (Right l c C) = Suc (fsize c + cpos C)"

fun csize :: "ctx \<Rightarrow> nat" where
  "csize Hole = 0"
| "csize (Down l C s) = Suc (csize C + fsize s)"
| "csize (Right l c C) = Suc (fsize c + csize C)"

fun comp :: "ctx \<Rightarrow> ctx \<Rightarrow> ctx" where
  "comp Hole D = D"
| "comp (Down l C s) D = Down l (comp C D) s"
| "comp (Right l c C) D = Right l c (comp C D)"

definition drow :: "nat \<Rightarrow> nat list \<Rightarrow> nat list \<Rightarrow> nat list" where
  "drow q cs row = map (dec_above q) (splice q cs row)"

fun ftrees :: "forest \<Rightarrow> nat" where
  "ftrees E = 0"
| "ftrees (T l c s) = Suc (ftrees s)"

section \<open>Expressions and the rewrite pass on them\<close>

text \<open>
  A well-formed input is \<open>root\<close> above an expression of \<open>+\<close> nodes with two children,
  \<open>succ\<close> nodes with one child and numeral leaves; \<open>tree_of e\<close> is its encoding. Numerals
  are integers, so that a right operand below zero (a label outside the alphabet) is an
  expression too. \<open>step\<close> is the effect of one pass on the expression and \<open>scr q e\<close> the
  edits the pass emits for the nodes of \<open>e\<close> when the root of \<open>e\<close> stands at the shifted
  position \<open>q\<close>.
\<close>

datatype expr = Num int | Succ expr | Plus expr expr

fun esize :: "expr \<Rightarrow> nat" where
  "esize (Num z) = 1"
| "esize (Succ e) = Suc (esize e)"
| "esize (Plus a b) = Suc (esize a + esize b)"

fun tr :: "expr \<Rightarrow> forest \<Rightarrow> forest" where
  "tr (Num z) s = T (py_str z) E s"
| "tr (Succ e) s = T ''succ'' (tr e E) s"
| "tr (Plus a b) s = T ''+'' (tr a (tr b E)) s"

definition tree_of :: "expr \<Rightarrow> tree" where
  "tree_of e = enc (T ''root'' (tr e E) E)"

fun step :: "expr \<Rightarrow> expr" where
  "step (Num z) = Num z"
| "step (Succ (Num z)) = Num ((z + 1) mod 10)"
| "step (Succ (Succ e)) = Succ (step (Succ e))"
| "step (Succ (Plus a b)) = Succ (step (Plus a b))"
| "step (Plus a (Num z)) = (if z = 0 then step a else Plus (step a) (Succ (Num (z - 1))))"
| "step (Plus a (Succ c)) = Plus (Succ (step a)) (step c)"
| "step (Plus a (Plus b c)) = Plus (step a) (step (Plus b c))"

fun scr :: "int \<Rightarrow> expr \<Rightarrow> edit list" where
  "scr q (Num z) = []"
| "scr q (Succ (Num z)) = [Deletion q, Replacement q (py_str ((z + 1) mod 10))]"
| "scr q (Succ (Succ e)) = scr (q + 1) (Succ e)"
| "scr q (Succ (Plus a b)) = scr (q + 1) (Plus a b)"
| "scr q (Plus a (Num z)) =
     (if z = 0 then [Deletion q, Deletion (q + int (esize a))] @ scr q a
      else [Insertion q 1 ''succ'' 1, Replacement (q + int (esize a) + 2) (py_str (z - 1))]
           @ scr (q + 1) a)"
| "scr q (Plus a (Succ c)) =
     [Insertion q 0 ''succ'' 1, Deletion (q + int (esize a) + 2)]
     @ scr (q + 2) a @ scr (q + 2 + int (esize (step a))) c"
| "scr q (Plus a (Plus b c)) = scr (q + 1) a @ scr (q + 1 + int (esize (step a))) (Plus b c)"

fun root_label :: "expr \<Rightarrow> string" where
  "root_label (Num z) = py_str z"
| "root_label (Succ e) = ''succ''"
| "root_label (Plus a b) = ''+''"

fun children :: "expr \<Rightarrow> forest" where
  "children (Num z) = E"
| "children (Succ e) = tr e E"
| "children (Plus a b) = tr a (tr b E)"

text \<open>
  The parent array of an encoded forest (\<open>p\<close> for its roots), and what the pass needs of
  the array \<open>pi\<close>: it holds the parent of every recorded child.
\<close>

fun fpar :: "nat \<Rightarrow> nat \<Rightarrow> forest \<Rightarrow> nat list" where
  "fpar k p E = []"
| "fpar k p (T l c s) = p # fpar (Suc k) k c @ fpar (Suc (k + fsize c)) p s"

definition parent_ok :: "nat list list \<Rightarrow> nat list \<Rightarrow> bool" where
  "parent_ok adj pi' = (\<forall>i < length adj. \<forall>j \<in> set (adj ! i). pi' ! j = i)"

section \<open>Measures on expressions\<close>

text \<open>
  \<open>nonneg\<close>: no numeral of the expression is negative. \<open>weight k e\<close> bounds the number of
  passes that \<open>e\<close> needs; \<open>k\<close> is the price of one unit of the numeral that \<open>e\<close> evaluates
  to, which is 0 at the root and grows by 3 in a right operand, and \<open>wright\<close> is the weight
  of a right operand, whose \<open>succ\<close> root is moved and not resolved. \<open>operators\<close> and
  \<open>max_numeral\<close> are the two summands of the bound of the specification. \<open>diverging\<close>
  holds of a sum whose right operand is a negative numeral, bare or under \<open>succ\<close>;
  \<open>reduced\<close> holds of a numeral.
\<close>

fun nonneg :: "expr \<Rightarrow> bool" where
  "nonneg (Num z) = (0 \<le> z)"
| "nonneg (Succ e) = nonneg e"
| "nonneg (Plus a b) = (nonneg a \<and> nonneg b)"

fun weight :: "nat \<Rightarrow> expr \<Rightarrow> nat" where
  "weight k (Num z) = k * nat z"
| "weight k (Succ e) = k + 1 + weight k e"
| "weight k (Plus a (Num z)) = 1 + weight k a + (k + 3) * nat z"
| "weight k (Plus a (Succ c)) = 1 + weight k a + (k + 2 + weight (k + 3) c)"
| "weight k (Plus a (Plus b c)) = 1 + weight k a + weight (k + 3) (Plus b c)"

fun operators :: "expr \<Rightarrow> nat" where
  "operators (Num z) = 0"
| "operators (Succ e) = Suc (operators e)"
| "operators (Plus a b) = Suc (operators a + operators b)"

fun max_numeral :: "expr \<Rightarrow> int" where
  "max_numeral (Num z) = z"
| "max_numeral (Succ e) = max_numeral e"
| "max_numeral (Plus a b) = max (max_numeral a) (max_numeral b)"

fun diverging :: "expr \<Rightarrow> bool" where
  "diverging (Plus a (Num z)) = (z < 0)"
| "diverging (Plus a (Succ (Num z))) = (z < 0)"
| "diverging e = False"

fun reduced :: "expr \<Rightarrow> bool" where
  "reduced (Num z) = True"
| "reduced e = False"

fun wright :: "nat \<Rightarrow> expr \<Rightarrow> nat" where
  "wright r (Succ c) = r - 1 + weight r c"
| "wright r e = weight r e"

section \<open>The alignment of an expression with its successor\<close>

text \<open>
  \<open>lmap q e\<close> lists, for the nodes of \<open>e\<close> in order, the entries of \<open>left_to_right\<close> when the
  root of the rewritten \<open>e\<close> stands at the successor index \<open>q\<close>; \<open>amap k L m\<close> is the dictionary
  \<open>m\<close> with the entries \<open>L\<close> written at the keys from \<open>k\<close> on. \<open>ascending j L\<close>: the entries
  of \<open>L\<close> that are not negative increase and start at or above the cursor \<open>j\<close>;
  \<open>cursor_after j L\<close> is the cursor of the merge loop after these entries. \<open>firsts\<close> and
  \<open>seconds\<close> are the coordinates of an alignment that are not the sentinel \<open>-1\<close>.
\<close>

fun lmap :: "int \<Rightarrow> expr \<Rightarrow> int list" where
  "lmap q (Num z) = [q]"
| "lmap q (Succ (Num z)) = [- 1, q]"
| "lmap q (Succ (Succ e)) = q # lmap (q + 1) (Succ e)"
| "lmap q (Succ (Plus a b)) = q # lmap (q + 1) (Plus a b)"
| "lmap q (Plus a (Num z)) =
     (if z = 0 then - 1 # lmap q a @ [- 1]
      else q # lmap (q + 1) a @ [q + int (esize (step a)) + 2])"
| "lmap q (Plus a (Succ c)) =
     q # lmap (q + 2) a @ [- 1] @ lmap (q + 2 + int (esize (step a))) c"
| "lmap q (Plus a (Plus b c)) =
     q # lmap (q + 1) a @ lmap (q + 1 + int (esize (step a))) (Plus b c)"

definition amap :: "nat \<Rightarrow> int list \<Rightarrow> (nat \<rightharpoonup> int) \<Rightarrow> (nat \<rightharpoonup> int)" where
  "amap k L m = (\<lambda>j. if k \<le> j \<and> j < k + length L then Some (L ! (j - k)) else m j)"

fun cursor_after :: "int \<Rightarrow> int list \<Rightarrow> int" where
  "cursor_after j [] = j"
| "cursor_after j (v # vs) = (if v < 0 then cursor_after j vs else cursor_after (v + 1) vs)"

fun ascending :: "int \<Rightarrow> int list \<Rightarrow> bool" where
  "ascending j [] = True"
| "ascending j (v # vs) = (if v < 0 then ascending j vs else j \<le> v \<and> ascending (v + 1) vs)"

definition firsts :: "(int \<times> int) list \<Rightarrow> int list" where
  "firsts al = filter (\<lambda>i. i \<noteq> - 1) (map fst al)"

definition seconds :: "(int \<times> int) list \<Rightarrow> int list" where
  "seconds al = filter (\<lambda>j. j \<noteq> - 1) (map snd al)"

section \<open>Basic facts\<close>

lemma ebind_Inr [simp]: "ebind (Inr x) f = f x"
  by (simp add: ebind_def)

lemma ebind_Inl [simp]: "ebind (Inl e) f = Inl e"
  by (simp add: ebind_def)

lemma ebind_eq_Inr: "ebind m f = Inr y \<longleftrightarrow> (\<exists>x. m = Inr x \<and> f x = Inr y)"
  by (cases m) simp_all

lemma get_in_range [simp]: "i < length xs \<Longrightarrow> get xs i = Inr (xs ! i)"
  by (simp add: get_def)

lemma get_eq_Inr: "get xs i = Inr x \<longleftrightarrow> i < length xs \<and> xs ! i = x"
  by (auto simp: get_def)

lemma ebind_eq_Inl: "ebind m f = Inl e \<longleftrightarrow> m = Inl e \<or> (\<exists>x. m = Inr x \<and> f x = Inl e)"
  by (cases m) simp_all

lemma get_error: "get xs i = Inl e \<Longrightarrow> e = IndexError"
  by (auto simp: get_def split: if_splits)

lemma digit_cases: "d < 10 \<Longrightarrow> d \<in> {0, 1, 2, 3, 4, 5, 6, 7, 8, 9::nat}"
  by auto

lemma digit_val_digit_char: "d < 10 \<Longrightarrow> digit_val (digit_char d) = Some d"
  by (drule digit_cases) (auto simp: digit_val_def digit_char_def)

lemma digit_char_not_sign: "d < 10 \<Longrightarrow> digit_char d \<noteq> CHR ''-'' \<and> digit_char d \<noteq> CHR ''+''"
  by (drule digit_cases) (auto simp: digit_char_def)

lemma digits_val_snoc:
  "digits_val a (cs @ [c]) =
     (case digits_val a cs of None \<Rightarrow> None
      | Some v \<Rightarrow> (case digit_val c of None \<Rightarrow> None | Some d \<Rightarrow> Some (10 * v + d)))"
  by (induction cs arbitrary: a) (auto split: option.splits)

lemma digits_val_dec: "digits_val 0 (dec n) = Some n"
proof (induction n rule: dec.induct)
  case (1 n)
  show ?case
  proof (cases "n < 10")
    case True
    then show ?thesis by (simp add: dec.simps [of n] digit_val_digit_char)
  next
    case False
    with 1 have "digits_val 0 (dec (n div 10)) = Some (n div 10)" by simp
    with False show ?thesis
      by (simp add: dec.simps [of n] digits_val_snoc digit_val_digit_char)
  qed
qed

lemma dec_hd: "\<exists>c cs. dec n = c # cs \<and> c \<noteq> CHR ''-'' \<and> c \<noteq> CHR ''+''"
proof (induction n rule: dec.induct)
  case (1 n)
  show ?case
  proof (cases "n < 10")
    case True
    then show ?thesis by (simp add: dec.simps [of n] digit_char_not_sign)
  next
    case False
    with 1 obtain c cs where "dec (n div 10) = c # cs" "c \<noteq> CHR ''-''" "c \<noteq> CHR ''+''"
      by auto
    with False show ?thesis by (simp add: dec.simps [of n])
  qed
qed

lemma py_int_py_str: "py_int (py_str z) = Inr z"
proof (cases "z < 0")
  case True
  obtain c cs where "dec (nat (- z)) = c # cs" using dec_hd by blast
  with True digits_val_dec [of "nat (- z)"] show ?thesis
    by (simp add: py_int_def py_str_def)
next
  case False
  obtain c cs where "dec (nat z) = c # cs" "c \<noteq> CHR ''-''" "c \<noteq> CHR ''+''"
    using dec_hd by blast
  with False digits_val_dec [of "nat z"] show ?thesis
    by (simp add: py_int_def py_str_def)
qed

lemma py_str_inject: "py_str a = py_str b \<longleftrightarrow> a = b"
  by (metis py_int_py_str sum.inject(2))

lemma py_int_words:
  "py_int ''+'' = Inl ValueError" "py_int ''succ'' = Inl ValueError"
  "py_int ''root'' = Inl ValueError"
  by (simp_all add: py_int_def digit_val_def)

lemma py_str_not_word [simp]:
  "py_str z \<noteq> ''+''" "py_str z \<noteq> ''succ''" "py_str z \<noteq> ''root''"
  using py_int_py_str [of z] by (auto simp: py_int_words)

lemma py_str_0: "py_str 0 = ''0''"
  by (simp add: py_str_def dec.simps digit_char_def)

lemma py_str_eq_0 [simp]: "py_str z = ''0'' \<longleftrightarrow> z = 0"
  using py_str_inject [of z 0] by (simp add: py_str_0)

section \<open>Concrete reductions\<close>

text \<open>
  C2 (as amended): on \<open>root \<rightarrow> +(2, 0)\<close> the pass emits the script of two deletions, removing
  \<open>+\<close> and \<open>0\<close>, and \<open>_simplify\<close> returns the two trees \<open>root \<rightarrow> +(2, 0)\<close>, \<open>root \<rightarrow> 2\<close>. On
  \<open>root \<rightarrow> +(1, succ(0))\<close> it returns three trees: the input, \<open>root \<rightarrow> +(succ(1), 0)\<close> and
  \<open>root \<rightarrow> 2\<close>; the base case and the successor resolution fire in the same pass.
\<close>

theorem simplify_scenarios:
  "matcher ([''root'', ''+'', ''2'', ''0''], [[1], [2, 3], [], []]) = Inr [Deletion 1, Deletion 2]
   \<and> simplify ([''root'', ''+'', ''2'', ''0''], [[1], [2, 3], [], []])
       = Some (Inr [([''root'', ''+'', ''2'', ''0''], [[1], [2, 3], [], []]),
                    ([''root'', ''2''], [[1], []])])
   \<and> simplify ([''root'', ''+'', ''1'', ''succ'', ''0''], [[1], [2, 3], [], [4], []])
       = Some (Inr [([''root'', ''+'', ''1'', ''succ'', ''0''], [[1], [2, 3], [], [4], []]),
                    ([''root'', ''+'', ''succ'', ''1'', ''0''], [[1], [2, 4], [3], [], []]),
                    ([''root'', ''2''], [[1], []])])"
  by code_simp

text \<open>
  C2 as stated fails: the trace of \<open>root \<rightarrow> +(1, succ(0))\<close> is not the four trees with
  \<open>root \<rightarrow> succ(1)\<close> in third place.
\<close>

theorem simplify_scenario_counterexample:
  "simplify ([''root'', ''+'', ''1'', ''succ'', ''0''], [[1], [2, 3], [], [4], []])
     \<noteq> Some (Inr [([''root'', ''+'', ''1'', ''succ'', ''0''], [[1], [2, 3], [], [4], []]),
                  ([''root'', ''+'', ''succ'', ''1'', ''0''], [[1], [2, 4], [3], [], []]),
                  ([''root'', ''succ'', ''1''], [[1], [2], []]),
                  ([''root'', ''2''], [[1], []])])"
  by code_simp

section \<open>The successor resolution of the rewrite pass\<close>

lemma length_add_slice [simp]: "length (add_slice lo hi d a) = length a"
  by (simp add: add_slice_def)

lemma length_add_from [simp]: "length (add_from lo d a) = length a"
  by (simp add: add_from_def)

lemma nth_add_slice:
  "j < length a \<Longrightarrow> add_slice lo hi d a ! j = (if lo \<le> j \<and> j < hi then a ! j + d else a ! j)"
  by (simp add: add_slice_def)

lemma nth_add_from:
  "j < length a \<Longrightarrow> add_from lo d a ! j = (if lo \<le> j then a ! j + d else a ! j)"
  by (simp add: add_from_def nth_add_slice)

text \<open>
  C3: at a node \<open>i\<close> labelled \<open>succ\<close> with the single child \<open>child\<close>, the loop body of the pass
  appends, when the parent's label is not \<open>+\<close> or the parent is \<open>i - 1\<close> and the child carries
  the numeral \<open>n\<close>, the deletion of \<open>i\<close> at its shifted position and then the replacement of the
  child (at its position after that deletion) by \<open>(n + 1) mod 10\<close>; when the guard fails or
  the child is labelled \<open>succ\<close> or \<open>+\<close>, it appends nothing and leaves the shifts alone.
\<close>

theorem succ_resolution:
  assumes "i < length adj" and "adj ! i = [child]" and "child < length nodes"
    and "nodes ! i = ''succ''"
  shows "((nodes ! (pi' ! i) \<noteq> ''+'' \<or> int (pi' ! i) = int i - 1) \<and> nodes ! child = py_str n \<longrightarrow>
           match_node nodes adj pi' i (script, index_shift)
             = Inr (script @ [Deletion (int i + index_shift ! i),
                              Replacement (int child + add_from (i + 1) (- 1) index_shift ! child)
                                (py_str ((n + 1) mod 10))],
                    add_from (i + 1) (- 1) index_shift))
       \<and> (\<not> (nodes ! (pi' ! i) \<noteq> ''+'' \<or> int (pi' ! i) = int i - 1)
             \<or> nodes ! child = ''succ'' \<or> nodes ! child = ''+'' \<longrightarrow>
           match_node nodes adj pi' i (script, index_shift) = Inr (script, index_shift))"
  using assms by (auto simp: match_node_def match_succ_def py_int_py_str Let_def)

theorem succ_resolution_witness:
  "match_node [''root'', ''succ'', ''1''] [[1], [2], []] [0, 0, 1] 1 ([], [0, 0, 0])
     = Inr ([Deletion 1, Replacement 1 ''2''], [0, 0, - 1])
   \<and> match_node [''root'', ''+'', ''1'', ''succ'', ''0''] [[1], [2, 3], [], [4], []] [0, 0, 1, 1, 3] 3
         ([], [0, 0, 0, 0, 0])
     = Inr ([], [0, 0, 0, 0, 0])"
proof -
  have s1: "py_str 1 = ''1''" "py_str 2 = ''2''"
    by (simp_all add: py_str_def dec.simps digit_char_def)
  have a: "add_from (Suc (Suc 0)) (- 1) [0, 0, 0] = [0, 0, - 1]"
    by (simp add: add_from_def add_slice_def upt_rec)
  have "match_node [''root'', ''succ'', ''1''] [[1], [2], []] [0, 0, 1] 1 ([], [0, 0, 0])
     = Inr ([Deletion 1, Replacement 1 ''2''], [0, 0, - 1])"
    using succ_resolution [of 1 "[[1], [2], []]" 2 "[''root'', ''succ'', ''1'']" "[0, 0, 1]" 1
        "[]" "[0, 0, 0]"]
    by (simp add: s1 a)
  moreover have "match_node [''root'', ''+'', ''1'', ''succ'', ''0''] [[1], [2, 3], [], [4], []]
         [0, 0, 1, 1, 3] 3 ([], [0, 0, 0, 0, 0]) = Inr ([], [0, 0, 0, 0, 0])"
    using succ_resolution [of 3 "[[1], [2, 3], [], [4], []]" 4
        "[''root'', ''+'', ''1'', ''succ'', ''0'']" "[0, 0, 1, 1, 3]" _ "[]" "[0, 0, 0, 0, 0]"]
    by simp
  ultimately show ?thesis by simp
qed

section \<open>The merge pass of the alignment\<close>

lemma align_plus_dom:
  "align_plus nodes adj i st = Inr st' \<Longrightarrow> snd st k \<noteq> None \<Longrightarrow> snd st' k \<noteq> None"
  by (cases st) (auto simp: align_plus_def ebind_eq_Inr Let_def split: if_splits)

lemma align_succ_dom:
  "align_succ nodes adj i st = Inr st' \<Longrightarrow> snd st k \<noteq> None \<Longrightarrow> snd st' k \<noteq> None"
  by (cases st) (auto simp: align_succ_def ebind_eq_Inr split: if_splits)

lemma align_record_dom:
  assumes "align_record i st1 = Inr st'"
  shows "snd st' i \<noteq> None \<and> (snd st1 k \<noteq> None \<longrightarrow> snd st' k \<noteq> None)"
  using assms by (cases st1) (auto simp: align_record_def split: if_splits)

lemma align_node_dom:
  assumes "align_node nodes adj pi' i st = Inr st'"
  shows "snd st' i \<noteq> None" and "snd st k \<noteq> None \<Longrightarrow> snd st' k \<noteq> None"
proof -
  define m where "m = (if nodes ! i = ''+'' then align_plus nodes adj i st
         else if nodes ! i = ''succ''
                 \<and> (nodes ! (pi' ! i) \<noteq> ''+'' \<or> int (pi' ! i) = int i - 1)
              then align_succ nodes adj i st else Inr st)"
  have "align_node nodes adj pi' i st = ebind m (align_record i)"
    unfolding align_node_def m_def by (rule refl)
  with assms obtain st1 where 1: "m = Inr st1" and 2: "align_record i st1 = Inr st'"
    by (auto simp: ebind_eq_Inr)
  from align_record_dom [OF 2] show "snd st' i \<noteq> None" by simp
  assume k: "snd st k \<noteq> None"
  from 1 have "snd st1 k \<noteq> None"
    using k align_plus_dom [of nodes adj i st st1 k] align_succ_dom [of nodes adj i st st1 k]
    by (auto simp: m_def split: if_splits)
  with align_record_dom [OF 2, of k] show "snd st' k \<noteq> None" by simp
qed

lemma align_loop_dom:
  "align_loop nodes adj pi' is st = Inr st' \<Longrightarrow>
     (\<forall>k. k \<in> set is \<or> snd st k \<noteq> None \<longrightarrow> snd st' k \<noteq> None)"
proof (induction "is" arbitrary: st)
  case Nil
  then show ?case by simp
next
  case (Cons i "is")
  from Cons.prems obtain st1 where
    1: "align_node nodes adj pi' i st = Inr st1" and 2: "align_loop nodes adj pi' is st1 = Inr st'"
    by (auto simp: ebind_eq_Inr)
  from Cons.IH [OF 2] align_node_dom [OF 1] show ?case by auto
qed

lemma merge_loop_total:
  "\<forall>i \<in> set is. l i \<noteq> None \<Longrightarrow>
     \<exists>al'. merge_loop l is j al = Inr al' \<and> sources al' = sources al @ map int is"
proof (induction "is" arbitrary: j al)
  case Nil
  then show ?case by simp
next
  case (Cons i "is")
  then obtain v where v: "l i = Some v" by auto
  have s: "sources (al @ map (\<lambda>k. (- 1, k)) [j..v - 1] @ [(int i, x)]) = sources al @ [int i]" for x
    by (simp add: sources_def filter_empty_conv o_def)
  have s': "sources (al @ [(int i, x)]) = sources al @ [int i]" for x
    by (simp add: sources_def)
  from Cons.prems have r: "\<forall>i \<in> set is. l i \<noteq> None" by simp
  show ?case
  proof (cases "v < 0")
    case True
    with Cons.IH [OF r, of j "al @ [(int i, - 1)]"] show ?thesis
      by (simp add: v s')
  next
    case False
    with Cons.IH [OF r, of "max j v + 1" "al @ map (\<lambda>k. (- 1, k)) [j..v - 1] @ [(int i, max j v)]"]
    show ?thesis
      by (simp add: v Let_def s)
  qed
qed

lemma set_parents_error: "set_parents i js pi' = Inl e \<Longrightarrow> e = IndexError"
  by (induction js arbitrary: pi') (auto split: if_splits)

lemma parents_loop_error: "parents_loop adj is pi' = Inl e \<Longrightarrow> e = IndexError"
  by (induction "is" arbitrary: pi')
     (auto simp: ebind_eq_Inl dest: get_error set_parents_error)

lemma align_plus_error: "align_plus nodes adj i st = Inl e \<Longrightarrow> e = IndexError"
  by (cases st) (auto simp: align_plus_def ebind_eq_Inl Let_def dest: get_error split: if_splits)

lemma align_succ_error: "align_succ nodes adj i st = Inl e \<Longrightarrow> e = IndexError"
  by (cases st) (auto simp: align_succ_def ebind_eq_Inl dest: get_error split: if_splits)

lemma align_record_error: "align_record i st = Inl e \<Longrightarrow> e = IndexError"
  by (cases st) (auto simp: align_record_def split: if_splits)

lemma align_node_error: "align_node nodes adj pi' i st = Inl e \<Longrightarrow> e = IndexError"
  by (auto simp: align_node_def ebind_eq_Inl
      dest: align_plus_error align_succ_error align_record_error split: if_splits)

lemma align_loop_error: "align_loop nodes adj pi' is st = Inl e \<Longrightarrow> e = IndexError"
  by (induction "is" arbitrary: st) (auto simp: ebind_eq_Inl dest: align_node_error)

lemma left_to_right_error: "left_to_right_of nodes adj = Inl e \<Longrightarrow> e = IndexError"
  by (auto simp: left_to_right_of_def parents_def ebind_eq_Inl
      dest: parents_loop_error align_loop_error)

lemma next_source_gaps:
  "next_source (map (\<lambda>k. (- 1, k)) ks @ (int i, y) # ps) = Some i"
  by (induction ks) auto

lemma follows_cursor_gaps:
  assumes "l i = Some v" and "0 \<le> v" and "follows_cursor l (max j v + 1) out"
  shows "follows_cursor l j (map (\<lambda>k. (- 1, k)) [j..v - 1] @ (int i, max j v) # out)"
  using assms
proof (induction "nat (v - j)" arbitrary: j)
  case 0
  then have "v \<le> j" by simp
  then have "[j..v - 1] = []" "max j v = j" by simp_all
  with 0 \<open>v \<le> j\<close> show ?case by simp
next
  case (Suc m)
  then have jv: "j < v" by simp
  then have u: "[j..v - 1] = j # [j + 1..v - 1]" by (simp add: upto_rec1)
  from jv have mx: "max (j + 1) v = max j v" by simp
  from Suc.hyps(2) jv have "m = nat (v - (j + 1))" by simp
  from Suc.hyps(1) [OF this Suc.prems(1,2)] Suc.prems(3)
  have "follows_cursor l (j + 1) (map (\<lambda>k. (- 1, k)) [j + 1..v - 1] @ (int i, max j v) # out)"
    by (simp add: mx)
  with jv Suc.prems(1) show ?case
    unfolding u by (simp add: next_source_gaps)
qed

lemma merge_loop_follows:
  "\<forall>i \<in> set is. l i \<noteq> None \<Longrightarrow>
     \<exists>out. merge_loop l is j al = Inr (al @ out) \<and> follows_cursor l j out"
proof (induction "is" arbitrary: j al)
  case Nil
  then show ?case by simp
next
  case (Cons i "is")
  then obtain v where v: "l i = Some v" by auto
  from Cons.prems have r: "\<forall>i \<in> set is. l i \<noteq> None" by simp
  show ?case
  proof (cases "v < 0")
    case True
    from Cons.IH [OF r, of j "al @ [(int i, - 1)]"] obtain out where
      o: "merge_loop l is j (al @ [(int i, - 1)]) = Inr ((al @ [(int i, - 1)]) @ out)"
      and f: "follows_cursor l j out"
      by blast
    have "merge_loop l (i # is) j al = Inr (al @ (int i, - 1) # out)"
      using o v True by simp
    moreover have "follows_cursor l j ((int i, - 1) # out)"
      using f v True by simp
    ultimately show ?thesis by blast
  next
    case False
    let ?new = "map (\<lambda>k. (- 1, k)) [j..v - 1] @ [(int i, max j v)]"
    from Cons.IH [OF r, of "max j v + 1" "al @ ?new"] obtain out where
      o: "merge_loop l is (max j v + 1) (al @ ?new) = Inr ((al @ ?new) @ out)"
      and f: "follows_cursor l (max j v + 1) out"
      by blast
    have "merge_loop l (i # is) j al
          = Inr (al @ (map (\<lambda>k. (- 1, k)) [j..v - 1] @ (int i, max j v) # out))"
      using o v False by (simp add: Let_def)
    moreover from False have "0 \<le> v" by simp
    from follows_cursor_gaps [OF v this f]
    have "follows_cursor l j (map (\<lambda>k. (- 1, k)) [j..v - 1] @ (int i, max j v) # out)" .
    ultimately show ?thesis by blast
  qed
qed

text \<open>
  C8 (as amended): \<open>peano_alignment\<close> has no consistency check. It fails only with an
  index error. Whenever its first loop completes, the merge loop returns normally,
  whatever the mapped indices are; the source indices of the returned pairs are
  \<open>0, \<dots>, len(nodes) - 1\<close> in order; and the pairs follow the cursor: where the mapped
  index of a node is not above the cursor, the pair of the node carries the cursor.
\<close>

theorem alignment_total:
  "(peano_alignment (nodes, adj) next_t = Inl e \<longrightarrow> e = IndexError)
   \<and> (left_to_right_of nodes adj = Inr l \<longrightarrow>
        (\<exists>al. peano_alignment (nodes, adj) next_t = Inr al
           \<and> sources al = map int [0..<length nodes]
           \<and> follows_cursor l 0 al))"
proof -
  have b: "\<exists>al. peano_alignment (nodes, adj) next_t = Inr al
           \<and> sources al = map int [0..<length nodes] \<and> follows_cursor l 0 al"
    if a: "left_to_right_of nodes adj = Inr l" for l
  proof -
    from a obtain pi' st where
      "align_loop nodes adj pi' [0..<length nodes] (replicate (length nodes) 0, Map.empty) = Inr st"
      and l: "l = snd st"
      by (auto simp: left_to_right_of_def ebind_eq_Inr)
    from align_loop_dom [OF this(1)] l have d: "\<forall>i \<in> set [0..<length nodes]. l i \<noteq> None"
      by simp
    from merge_loop_total [OF d, of 0 "[]"] obtain al where
      m: "merge_loop l [0..<length nodes] 0 [] = Inr al"
      and s: "sources al = sources [] @ map int [0..<length nodes]"
      by blast
    from merge_loop_follows [OF d, of 0 "[]"] m have f: "follows_cursor l 0 al" by simp
    have "sources [] = []" by (simp add: sources_def)
    moreover have "peano_alignment (nodes, adj) next_t = merge_loop l [0..<length nodes] 0 []"
      unfolding peano_alignment_def by (simp add: a)
    ultimately show ?thesis using m s f by simp
  qed
  have "e = IndexError" if p: "peano_alignment (nodes, adj) next_t = Inl e"
  proof (cases "left_to_right_of nodes adj")
    case (Inl e')
    with p have "e' = e" by (simp add: peano_alignment_def)
    with left_to_right_error [OF Inl] show ?thesis by simp
  next
    case (Inr l)
    from b [OF Inr] p show ?thesis by simp
  qed
  with b show ?thesis by blast
qed

theorem alignment_total_witness:
  "\<exists>l. left_to_right_of [''root'', ''+'', ''1'', ''1''] [[1], [2, 3], [], []] = Inr l
     \<and> (\<exists>al. peano_alignment ([''root'', ''+'', ''1'', ''1''], [[1], [2, 3], [], []])
               ([''root'', ''+'', ''1'', ''succ'', ''0''], [[1], [2, 3], [], [4], []]) = Inr al
          \<and> sources al = map int [0..<length [''root'', ''+'', ''1'', ''1'']]
          \<and> follows_cursor l 0 al)"
proof -
  have "case left_to_right_of [''root'', ''+'', ''1'', ''1''] [[1], [2, 3], [], []] of
          Inl e \<Rightarrow> False | Inr l \<Rightarrow> True"
    by code_simp
  then obtain l where l: "left_to_right_of [''root'', ''+'', ''1'', ''1''] [[1], [2, 3], [], []] = Inr l"
    by (auto split: sum.splits)
  from alignment_total [where nodes = "[''root'', ''+'', ''1'', ''1'']"
      and adj = "[[1], [2, 3], [], []]" and l = l
      and next_t = "([''root'', ''+'', ''1'', ''succ'', ''0''], [[1], [2, 3], [], [4], []])"
      and e = IndexError] l
  show ?thesis by blast
qed

text \<open>
  C8 as stated fails: on the tree below, node 5 is mapped to successor index 1 when the
  cursor is already 2; no error is raised, and the pair \<open>(5, 2)\<close> is returned.
\<close>

theorem alignment_no_check_counterexample:
  "map_sum id (\<lambda>l. l 5)
      (left_to_right_of [''root'', ''+'', ''+'', ''1'', ''0'', ''1'']
         [[1, 5], [2, 4], [3, 4], [], [], []]) = Inr (Some 1)
   \<and> peano_alignment
        ([''root'', ''+'', ''+'', ''1'', ''0'', ''1''], [[1, 5], [2, 4], [3, 4], [], [], []])
        ([''root'', ''1''], [[1], []])
      = Inr [(0, 0), (1, - 1), (2, - 1), (3, 1), (4, - 1), (5, 2)]"
  by code_simp


section \<open>The decode step: failures and spans\<close>

lemma score_less [simp]:
  "(Fin a < Fin b) = (a < b)" "\<not> NaN < x" "\<not> x < NaN"
  by (auto simp: less_score_def split: score.splits)

lemma score_less_eq [simp]:
  "(Fin a \<le> Fin b) = (a \<le> b)" "\<not> NaN \<le> x" "\<not> x \<le> NaN"
  by (auto simp: less_eq_score_def split: score.splits)

lemma score_abs [simp]: "\<bar>Fin a\<bar> = Fin \<bar>a\<bar>" "\<bar>NaN\<bar> = NaN"
  by (simp_all add: abs_score_def)

lemma score_uminus [simp]: "- Fin a = Fin (- a)" "- NaN = NaN"
  by (simp_all add: uminus_score_def)

lemma score_numeral: "(numeral k :: score) = Fin (numeral k)"
proof (induction k)
  case One
  then show ?case by (simp add: one_score_def)
next
  case (Bit0 k)
  have "(numeral (num.Bit0 k) :: score) = numeral k + numeral k" by (rule numeral_Bit0)
  also have "\<dots> = Fin (numeral k + numeral k)" by (simp add: Bit0.IH plus_score_def)
  finally show ?case by (simp add: numeral_Bit0)
next
  case (Bit1 k)
  have "(numeral (num.Bit1 k) :: score) = numeral k + numeral k + 1" by (rule numeral_Bit1)
  also have "\<dots> = Fin (numeral k + numeral k + 1)"
    by (simp add: Bit1.IH plus_score_def one_score_def)
  finally show ?case by (simp add: numeral_Bit1)
qed

lemma score_divide [simp]: "Fin a / Fin b = (if b = 0 then NaN else Fin (a / b))"
  by (simp add: divide_score_def)


lemma score_less_not_le: "(c :: score) < d \<Longrightarrow> \<not> d \<le> c"
  by (cases c; cases d) auto




lemma selections_NaN:
  "keeps NaN" "inserts NaN" "deletes NaN"
  "\<not> claimed_keep NaN" "\<not> claimed_insert NaN" "\<not> claimed_delete NaN"
  by (simp_all add: keeps_def inserts_def deletes_def claimed_keep_def claimed_insert_def
      claimed_delete_def)

lemma span_loop_bounds:
  "span_loop row len c C = Inr C' \<Longrightarrow>
     C \<le> C' \<and> (c + C \<le> len \<longrightarrow> c + C' \<le> len) \<and> (len \<le> c + C \<longrightarrow> C' = C)"
proof (induction row len c C rule: span_loop.induct)
  case (1 row len c C)
  show ?case
  proof (cases "c + C < len")
    case False
    with "1.prems" show ?thesis by (simp add: span_loop.simps [of row len c C])
  next
    case True
    show ?thesis
    proof (cases "get row (c + C)")
      case (Inl e)
      with True "1.prems" show ?thesis by (simp add: span_loop.simps [of row len c C])
    next
      case (Inr x)
      show ?thesis
      proof (cases "x > 1 / 2")
        case False
        with True Inr "1.prems" show ?thesis by (simp add: span_loop.simps [of row len c C])
      next
        case gt: True
        with True Inr "1.prems" have "span_loop row len c (C + 1) = Inr C'"
          by (simp add: span_loop.simps [of row len c C])
        from "1.IH" [OF True Inr gt this] True show ?thesis by auto
      qed
    qed
  qed
qed

lemma span_loop_error: "span_loop row len c C = Inl e \<Longrightarrow> e = IndexError"
proof (induction row len c C rule: span_loop.induct)
  case (1 row len c C)
  show ?case
  proof (cases "c + C < len")
    case False
    with "1.prems" show ?thesis by (simp add: span_loop.simps [of row len c C])
  next
    case True
    show ?thesis
    proof (cases "get row (c + C)")
      case (Inl e')
      with True "1.prems" show ?thesis
        by (auto simp: span_loop.simps [of row len c C] get_def split: if_splits)
    next
      case (Inr x)
      show ?thesis
      proof (cases "x > 1 / 2")
        case False
        with True Inr "1.prems" show ?thesis by (simp add: span_loop.simps [of row len c C])
      next
        case gt: True
        with True Inr "1.prems" have "span_loop row len c (C + 1) = Inl e"
          by (simp add: span_loop.simps [of row len c C])
        from "1.IH" [OF True Inr gt this] show ?thesis .
      qed
    qed
  qed
qed

lemma argmax_error: "argmax row = Inl e \<Longrightarrow> e = IndexError"
  by (auto simp: argmax_def split: list.splits)

lemma predicted_type_error: "predicted_type alpha pr i = Inl e \<Longrightarrow> e = IndexError"
  by (auto simp: predicted_type_def ebind_eq_Inl dest: get_error argmax_error)

lemma insertion_of_error: "insertion_of adj alpha pr i = Inl e \<Longrightarrow> e = IndexError"
  by (auto simp: insertion_of_def ebind_eq_Inl
      dest: get_error argmax_error predicted_type_error span_loop_error)

lemma replace_loop_error: "replace_loop nodes alpha pr is script = Inl e \<Longrightarrow> e = IndexError"
  by (induction "is" arbitrary: script)
     (auto simp: ebind_eq_Inl dest: get_error predicted_type_error split: if_splits)

lemma delete_loop_error: "delete_loop pr ins_shift is script = Inl e \<Longrightarrow> e = IndexError"
  by (induction "is" arbitrary: script) (auto simp: ebind_eq_Inl dest: get_error split: if_splits)

lemma last_desc_error: "last_desc adj j = Some r \<Longrightarrow> \<forall>e. r = Inl e \<longrightarrow> e = IndexError"
  by (rule last_desc.raw_induct [where P = "\<lambda>adj j r. \<forall>e. r = Inl e \<longrightarrow> e = IndexError"])
     (auto split: if_splits)

lemma next_index_error: "next_index adj i c = Some (Inl e) \<Longrightarrow> e = IndexError"
proof (cases "c < length (adj ! i)")
  case True
  moreover assume "next_index adj i c = Some (Inl e)"
  ultimately show ?thesis by (simp add: next_index_def)
next
  case False
  moreover assume "next_index adj i c = Some (Inl e)"
  ultimately obtain r where "last_desc adj i = Some r" "map_sum id Suc r = Inl e"
    by (auto simp: next_index_def)
  then show ?thesis by (cases r) (auto dest: last_desc_error)
qed

lemma insert_loop_error: "insert_loop adj alpha pr is st = Some (Inl e) \<Longrightarrow> e = IndexError"
proof (induction "is" arbitrary: st)
  case Nil
  then show ?case by simp
next
  case (Cons i "is")
  then show ?case
    by (auto split: sum.splits if_splits option.splits prod.splits
        dest: get_error insertion_of_error next_index_error)
qed

lemma predict_script_error: "predict_script pr t alpha_opt = Some (Inl e) \<Longrightarrow> e = IndexError"
  by (cases t)
     (auto simp: predict_script_def Let_def split: sum.splits option.splits prod.splits
      dest: replace_loop_error insert_loop_error delete_loop_error)

lemma insertion_of_span:
  assumes "insertion_of adj alpha pr i = Inr (c, label, C)"
  shows "(c \<le> length (adj ! i) \<longrightarrow> c + C \<le> length (adj ! i)) \<and> (length (adj ! i) \<le> c \<longrightarrow> C = 0)"
proof -
  from assms obtain nrow where "span_loop nrow (length (adj ! i)) c 0 = Inr C"
    by (auto simp: insertion_of_def ebind_eq_Inr get_eq_Inr)
  from span_loop_bounds [OF this] show ?thesis by simp
qed

text \<open>
  C9 (as amended): \<open>predict_step\<close> has no check of its own on an insertion. Building the
  script fails only with an index error (a prediction with a missing row or entry); the
  span loop stops at the child count, so slot plus span stays within it whenever the
  slot does, and is 0 when the slot is at or past it; and the insertion is appended
  whatever the slot is.
\<close>

theorem decode_unchecked:
  "(predict_script pr (nodes, adj) alpha_opt = Some (Inl e) \<longrightarrow> e = IndexError)
   \<and> (insertion_of adj alpha pr i = Inr (c, label, C) \<longrightarrow>
        (c \<le> length (adj ! i) \<longrightarrow> c + C \<le> length (adj ! i)) \<and> (length (adj ! i) \<le> c \<longrightarrow> C = 0))
   \<and> (get (delta pr) i = Inr d \<and> 1 / 2 < d \<and> insertion_of adj alpha pr i = Inr (c, label, C)
        \<and> next_index adj i c = Some (Inr j) \<longrightarrow>
        insert_loop adj alpha pr [i] (script, ins_shift)
          = Some (Inr (script @ [Insertion (int i + ins_shift ! i) c label C],
                       add_from j 1 ins_shift)))"
  using predict_script_error [of pr "(nodes, adj)" alpha_opt e]
    insertion_of_span [of adj alpha pr i c label C] score_less_not_le [of "1 / 2" d]
  by auto

theorem decode_unchecked_witness:
  "predict_script \<lparr>delta = [], types = [], Cidx = [], Cnum = []\<rparr> ([''root''], [[]]) None
     = Some (Inl IndexError)
   \<and> insertion_of [[1], [2, 3], [], []] alphabet
        \<lparr>delta = [0, 1, 0, 0], types = [[], [0, 0, 0, 0, 0, 0, 0, 0, 0, 0, 0, 1], [], []],
         Cidx = [[], [1, 0], [], []], Cnum = [[], [1, 1], [], []]\<rparr> 1 = Inr (0, ''succ'', 2)
   \<and> insert_loop [[1], [2, 3], [], []] alphabet
        \<lparr>delta = [0, 1, 0, 0], types = [[], [0, 0, 0, 0, 0, 0, 0, 0, 0, 0, 0, 1], [], []],
         Cidx = [[], [1, 0], [], []], Cnum = [[], [1, 1], [], []]\<rparr> [1] ([], [0, 0, 0, 0])
      = Some (Inr ([Insertion 1 0 ''succ'' 2], [0, 0, 1, 1]))"
proof -
  let ?pr = "\<lparr>delta = [0, 1, 0, 0], types = [[], [0, 0, 0, 0, 0, 0, 0, 0, 0, 0, 0, 1], [], []],
         Cidx = [[], [1, 0], [], []], Cnum = [[], [1, 1], [], []]\<rparr>"
  have a: "predict_script \<lparr>delta = [], types = [], Cidx = [], Cnum = []\<rparr> ([''root''], [[]]) None
     = Some (Inl IndexError)"
    by code_simp
  have b: "insertion_of [[1], [2, 3], [], []] alphabet ?pr 1 = Inr (0, ''succ'', 2)"
    by code_simp
  have c: "get (delta ?pr) 1 = Inr 1" "next_index [[1], [2, 3], [], []] 1 0 = Some (Inr 2)"
    "add_from 2 1 [0, 0, 0, 0] = [0, 0, 1, 1]"
    by code_simp+
  from decode_unchecked [where pr = "\<lparr>delta = [], types = [], Cidx = [], Cnum = []\<rparr>"
      and nodes = "[''root'']" and adj = "[[]]" and alpha_opt = None and e = IndexError]
    decode_unchecked [where pr = ?pr and adj = "[[1], [2, 3], [], []]" and alpha = alphabet
      and i = 1 and c = 0 and label = "''succ''" and C = 2 and d = 1 and j = 2
      and script = "[]" and ins_shift = "[0, 0, 0, 0]"]
    a b c
  show ?thesis by (simp add: one_score_def score_numeral)
qed

text \<open>
  C9 as stated fails: for a leaf with predicted slot 4 the script is built without error
  and holds the insertion at slot 4; the failure comes only from applying the script,
  and is the \<open>InvalidSpan\<close> of the script application.
\<close>

theorem decode_unchecked_counterexample:
  "predict_script
      \<lparr>delta = [0, 0, 1], types = [[0, 0, 0, 0, 0, 0, 0, 0, 0, 0, 0, 0, 1], [1], [0, 0, 1]],
       Cidx = [[], [], [0, 0, 0, 0, 1]], Cnum = [[], [], []]\<rparr>
      ([''root'', ''+'', ''1''], [[1], [2], []]) None
     = Some (Inr [Insertion 2 4 ''1'' 0])
   \<and> predict_step
      \<lparr>delta = [0, 0, 1], types = [[0, 0, 0, 0, 0, 0, 0, 0, 0, 0, 0, 0, 1], [1], [0, 0, 1]],
       Cidx = [[], [], [0, 0, 0, 0, 1]], Cnum = [[], [], []]\<rparr>
      ([''root'', ''+'', ''1''], [[1], [2], []]) None
     = Some (Inl InvalidSpan)"
  by code_simp

section \<open>The decode step: three phases\<close>













section \<open>The generated trees\<close>

lemma alphabet_plus: "alphabet ! 0 = ''+''"
  by (simp add: alphabet_def)

lemma numerals_not_words:
  "max_input \<le> 9 \<Longrightarrow> l \<in> set (numerals max_input) \<Longrightarrow>
     l \<noteq> ''+'' \<and> l \<noteq> ''0'' \<and> l \<noteq> ''succ'' \<and> l \<noteq> ''root''"
proof -
  assume m: "max_input \<le> 9" and l: "l \<in> set (numerals max_input)"
  have "set (numerals max_input) \<subseteq> set (numerals 9)"
    unfolding numerals_def using m by (metis set_take_subset_set_take)
  moreover have "''+'' \<notin> set (numerals 9) \<and> ''0'' \<notin> set (numerals 9)
      \<and> ''succ'' \<notin> set (numerals 9) \<and> ''root'' \<notin> set (numerals 9)"
    by (simp add: numerals_def alphabet_def)
  ultimately show ?thesis using l by auto
qed

lemma drawn_numeral:
  assumes "2 \<le> r" "r \<le> max_input + 1" "max_input \<le> 9"
  shows "alphabet ! r \<in> set (numerals max_input)"
proof -
  have len: "length alphabet = 13" by (simp add: alphabet_def)
  from assms have "r - 2 < length (numerals max_input)"
    by (simp add: numerals_def len)
  then have "numerals max_input ! (r - 2) \<in> set (numerals max_input)" by (rule nth_mem)
  moreover from assms have "2 + (r - 2) = r" by simp
  with assms have "numerals max_input ! (r - 2) = alphabet ! r"
    by (simp add: numerals_def len del: add_2_eq_Suc add_2_eq_Suc')
  ultimately show ?thesis by simp
qed

lemma gen_inv_step:
  assumes inv: "gen_inv m (p # stk) (nodes, adj)" and m: "m \<le> 9"
    and r: "possible_draw m b r"
  shows "gen_inv m (if alphabet ! r = ''+'' then length nodes # length nodes # stk else stk)
           (nodes @ [alphabet ! r], (adj @ [[]])[p := (adj @ [[]]) ! p @ [length nodes]])"
proof -
  let ?i = "length nodes" and ?l = "alphabet ! r"
  let ?adj = "(adj @ [[]])[p := (adj @ [[]]) ! p @ [length nodes]]"
  let ?stk = "if ?l = ''+'' then ?i # ?i # stk else stk"
  from inv have all: "length adj = length nodes \<and> 0 < length nodes \<and> nodes ! 0 = ''root''
        \<and> (\<forall>p \<in> set (p # stk). p < length nodes)
        \<and> length (adj ! 0) + count_list (p # stk) 0 = 1
        \<and> (\<forall>i. 0 < i \<and> i < length nodes \<longrightarrow>
              (if nodes ! i = ''+'' then length (adj ! i) + count_list (p # stk) i = 2
               else nodes ! i \<in> set (numerals m) \<and> adj ! i = [] \<and> i \<notin> set (p # stk)))
        \<and> (\<forall>i < length nodes. \<forall>c \<in> set (adj ! i). i < c \<and> c < length nodes)"
    unfolding gen_inv_def prod.case .
  from all have len: "length adj = ?i" "0 < ?i" by blast+
  from all have root: "nodes ! 0 = ''root''" by blast
  from all have pstk: "\<forall>q \<in> set (p # stk). q < ?i" by blast
  then have p: "p < ?i" and stk: "\<forall>q \<in> set stk. q < ?i" by simp_all
  from all have c0: "length (adj ! 0) + count_list (p # stk) 0 = 1" by blast
  from all have ar: "\<forall>i. 0 < i \<and> i < ?i \<longrightarrow>
              (if nodes ! i = ''+'' then length (adj ! i) + count_list (p # stk) i = 2
               else nodes ! i \<in> set (numerals m) \<and> adj ! i = [] \<and> i \<notin> set (p # stk))"
    by blast
  from all have ord: "\<forall>i < ?i. \<forall>c \<in> set (adj ! i). i < c \<and> c < ?i" by blast
  have lab: "?l = ''+'' \<or> (?l \<noteq> ''+'' \<and> ?l \<in> set (numerals m))"
  proof (cases "r = 0")
    case True
    then show ?thesis by (simp add: alphabet_plus)
  next
    case False
    with r have "2 \<le> r" "r \<le> m + 1" by (auto simp: possible_draw_def)
    from drawn_numeral [OF this m] numerals_not_words [OF m] show ?thesis by blast
  qed
  have adjq: "?adj ! q = (if q = p then adj ! p @ [?i] else adj ! q)" if "q < ?i" for q
    using that len p by (simp add: nth_list_update nth_append)
  have adji: "?adj ! ?i = []"
    using len p by (simp add: nth_list_update nth_append)
  have nodq: "(nodes @ [?l]) ! q = nodes ! q" if "q < ?i" for q
    using that by (simp add: nth_append)
  have inot: "?i \<notin> set stk" using stk by auto
  have cnt: "count_list ?stk q = count_list stk q" if "q < ?i" for q
    using that by simp
  have cntp: "count_list (p # stk) q = (if q = p then count_list stk q + 1 else count_list stk q)" for q
    by auto
  have 1: "length ?adj = length (nodes @ [?l])" using len by simp
  have 2: "(nodes @ [?l]) ! 0 = ''root''" using root len nodq by simp
  have 3: "\<forall>q \<in> set ?stk. q < length (nodes @ [?l])" using stk by auto
  have 4: "length (?adj ! 0) + count_list ?stk 0 = 1"
    using c0 len adjq [of 0] cnt [of 0] cntp [of 0] by (simp split: if_splits)
  have 5: "if (nodes @ [?l]) ! i = ''+'' then length (?adj ! i) + count_list ?stk i = 2
           else (nodes @ [?l]) ! i \<in> set (numerals m) \<and> ?adj ! i = [] \<and> i \<notin> set ?stk"
    if i: "0 < i" "i < length (nodes @ [?l])" for i
  proof (cases "i < ?i")
    case True
    with ar i have old: "if nodes ! i = ''+'' then length (adj ! i) + count_list (p # stk) i = 2
               else nodes ! i \<in> set (numerals m) \<and> adj ! i = [] \<and> i \<notin> set (p # stk)"
      by blast
    show ?thesis
    proof (cases "nodes ! i = ''+''")
      case plus: True
      with old have "length (adj ! i) + count_list (p # stk) i = 2" by simp
      with plus True show ?thesis
        using adjq [of i] cnt [of i] cntp [of i] nodq [of i] by (simp split: if_splits)
    next
      case False
      with old have "nodes ! i \<in> set (numerals m)" "adj ! i = []" "i \<notin> set (p # stk)"
        by simp_all
      with False True show ?thesis
        using adjq [of i] nodq [of i] by auto
    qed
  next
    case False
    with i have e: "i = ?i" by simp
    show ?thesis
    proof (cases "?l = ''+''")
      case True
      with e adji inot show ?thesis by (simp add: count_notin)
    next
      case False
      with lab have "?l \<in> set (numerals m)" by simp
      with False e adji inot show ?thesis by simp
    qed
  qed
  have 6: "\<forall>c \<in> set (?adj ! i). i < c \<and> c < length (nodes @ [?l])"
    if i: "i < length (nodes @ [?l])" for i
  proof (cases "i < ?i")
    case True
    with ord have o: "\<forall>c \<in> set (adj ! i). i < c \<and> c < ?i" by blast
    show ?thesis
    proof (cases "i = p")
      case True
      with o p adjq [of i] show ?thesis by auto
    next
      case False
      with o \<open>i < ?i\<close> adjq [of i] show ?thesis by auto
    qed
  next
    case False
    with i have "i = ?i" by simp
    with adji show ?thesis by simp
  qed
  have 0: "0 < length (nodes @ [?l])" by simp
  from 5 have a5: "\<forall>i. 0 < i \<and> i < length (nodes @ [?l]) \<longrightarrow>
      (if (nodes @ [?l]) ! i = ''+'' then length (?adj ! i) + count_list ?stk i = 2
       else (nodes @ [?l]) ! i \<in> set (numerals m) \<and> ?adj ! i = [] \<and> i \<notin> set ?stk)"
    by blast
  from 6 have a6: "\<forall>i < length (nodes @ [?l]). \<forall>c \<in> set (?adj ! i). i < c \<and> c < length (nodes @ [?l])"
    by blast
  show ?thesis
    unfolding gen_inv_def prod.case
    by (intro conjI 1 0 2 3 4 a5 a6)
qed

lemma generate_loop_inv:
  "generate_loop m ma draws stk t = Some t' \<Longrightarrow> gen_inv m stk t \<Longrightarrow> m \<le> 9 \<Longrightarrow> gen_inv m [] t'"
proof (induction m ma draws stk t rule: generate_loop.induct)
  case (1 m ma draws t)
  then show ?case by simp
next
  case (2 m ma p stk t)
  then show ?case by simp
next
  case (3 m ma r draws p stk t)
  let ?i = "length (fst t)" and ?l = "alphabet ! r"
  let ?nodes = "fst t @ [?l]" and ?adj = "(snd t @ [[]])[p := (snd t @ [[]]) ! p @ [?i]]"
  from "3.prems"(1) have r: "possible_draw m (ma > 0) r"
    by (auto split: if_splits)
  then have nn: "\<not> \<not> possible_draw m (ma > 0) r" by simp
  from "3.prems"(2) have "gen_inv m (p # stk) (fst t, snd t)" by simp
  from gen_inv_step [OF this "3.prems"(3) r]
  have inv: "gen_inv m (if ?l = ''+'' then ?i # ?i # stk else stk) (?nodes, ?adj)" .
  show ?case
  proof (cases "?l = ''+''")
    case True
    with "3.prems"(1) r
    have g: "generate_loop m (ma - 1) draws (?i # ?i # stk) (?nodes, ?adj) = Some t'"
      by (simp add: Let_def)
    from inv True have "gen_inv m (?i # ?i # stk) (?nodes, ?adj)" by simp
    from "3.IH"(1) [OF nn refl refl refl refl True g this "3.prems"(3)]
    show ?thesis .
  next
    case False
    with "3.prems"(1) r
    have g: "generate_loop m ma draws stk (?nodes, ?adj) = Some t'"
      by (simp add: Let_def)
    from inv False have "gen_inv m stk (?nodes, ?adj)" by simp
    from "3.IH"(2) [OF nn refl refl refl refl False g this "3.prems"(3)]
    show ?thesis .
  qed
qed


lemma gen_inv_initial: "gen_inv m [0] ([''root''], [[]])"
  by (auto simp: gen_inv_def)

text \<open>
  C10: a tree returned by \<open>_generate_tree\<close> for \<open>1 \<le> max_input \<le> 9\<close> has the label \<open>root\<close> at
  node 0, which has exactly one child; every other node is labelled \<open>+\<close> or with a numeral
  from \<open>1\<close> to \<open>max_input\<close>; every \<open>+\<close> has exactly two children and every numeral none; no
  label is \<open>0\<close> or \<open>succ\<close>; every child index is greater than its parent's.
\<close>

theorem generated_tree_shape:
  assumes "generate_tree max_additions max_input draws = Some (Inr (nodes, adj))"
    and "1 \<le> max_input" and "max_input \<le> 9"
  shows "nodes ! 0 = ''root'' \<and> length (adj ! 0) = 1
         \<and> (\<forall>i < length nodes.
               (0 < i \<longrightarrow> nodes ! i = ''+'' \<or> nodes ! i \<in> set (numerals (nat max_input)))
               \<and> (nodes ! i = ''+'' \<longrightarrow> length (adj ! i) = 2)
               \<and> (nodes ! i \<in> set (numerals (nat max_input)) \<longrightarrow> adj ! i = [])
               \<and> nodes ! i \<noteq> ''0'' \<and> nodes ! i \<noteq> ''succ''
               \<and> (\<forall>c \<in> set (adj ! i). i < c))"
proof -
  let ?m = "nat max_input"
  from assms have m: "?m \<le> 9" by simp
  from assms have "generate_loop ?m max_additions draws [0] ([''root''], [[]]) = Some (nodes, adj)"
    by (auto simp: generate_tree_def Let_def split: if_splits)
  from generate_loop_inv [OF this gen_inv_initial m]
  have all: "length adj = length nodes \<and> 0 < length nodes \<and> nodes ! 0 = ''root''
        \<and> (\<forall>p \<in> set ([] :: nat list). p < length nodes)
        \<and> length (adj ! 0) + count_list ([] :: nat list) 0 = 1
        \<and> (\<forall>i. 0 < i \<and> i < length nodes \<longrightarrow>
              (if nodes ! i = ''+'' then length (adj ! i) + count_list ([] :: nat list) i = 2
               else nodes ! i \<in> set (numerals ?m) \<and> adj ! i = [] \<and> i \<notin> set ([] :: nat list)))
        \<and> (\<forall>i < length nodes. \<forall>c \<in> set (adj ! i). i < c \<and> c < length nodes)"
    unfolding gen_inv_def prod.case .
  then have root: "nodes ! 0 = ''root''" by blast
  from all have "length (adj ! 0) + count_list ([] :: nat list) 0 = 1" by blast
  then have one: "length (adj ! 0) = 1" by simp
  from all have ar0: "\<forall>i. 0 < i \<and> i < length nodes \<longrightarrow>
              (if nodes ! i = ''+'' then length (adj ! i) + count_list ([] :: nat list) i = 2
               else nodes ! i \<in> set (numerals ?m) \<and> adj ! i = [] \<and> i \<notin> set ([] :: nat list))"
    by blast
  have ar: "if nodes ! i = ''+'' then length (adj ! i) = 2
            else nodes ! i \<in> set (numerals ?m) \<and> adj ! i = []" if "0 < i" "i < length nodes" for i
  proof -
    from ar0 that have "if nodes ! i = ''+'' then length (adj ! i) + count_list ([] :: nat list) i = 2
               else nodes ! i \<in> set (numerals ?m) \<and> adj ! i = [] \<and> i \<notin> set ([] :: nat list)"
      by blast
    then show ?thesis by (simp split: if_splits)
  qed
  from all have ord: "\<forall>i < length nodes. \<forall>c \<in> set (adj ! i). i < c" by blast
  have "(0 < i \<longrightarrow> nodes ! i = ''+'' \<or> nodes ! i \<in> set (numerals ?m))
               \<and> (nodes ! i = ''+'' \<longrightarrow> length (adj ! i) = 2)
               \<and> (nodes ! i \<in> set (numerals ?m) \<longrightarrow> adj ! i = [])
               \<and> nodes ! i \<noteq> ''0'' \<and> nodes ! i \<noteq> ''succ''
               \<and> (\<forall>c \<in> set (adj ! i). i < c)" if i: "i < length nodes" for i
  proof (cases "i = 0")
    case True
    with root ord i numerals_not_words [OF m, of "''root''"] show ?thesis by auto
  next
    case False
    with ar [of i] i have "if nodes ! i = ''+'' then length (adj ! i) = 2
               else nodes ! i \<in> set (numerals ?m) \<and> adj ! i = []" by simp
    with ord i numerals_not_words [OF m, of "nodes ! i"] show ?thesis
      by (auto split: if_splits)
  qed
  with root one show ?thesis by blast
qed

theorem generated_tree_shape_witness:
  "generate_tree 3 9 [0, 5, 0, 2, 10] = Some (Inr ([''root'', ''+'', ''4'', ''+'', ''1'', ''9''],
                                                   [[1], [2, 3], [], [4, 5], [], []]))
   \<and> (1::int) \<le> 9 \<and> (9::int) \<le> 9
   \<and> [''root'', ''+'', ''4'', ''+'', ''1'', ''9''] ! 0 = ''root''
   \<and> length ([[1], [2, 3], [], [4, 5], [], []] ! 0 :: nat list) = 1"
proof -
  have g: "generate_tree 3 9 [0, 5, 0, 2, 10]
     = Some (Inr ([''root'', ''+'', ''4'', ''+'', ''1'', ''9''], [[1], [2, 3], [], [4, 5], [], []]))"
    by code_simp
  have b: "(1::int) \<le> 9" "(9::int) \<le> 9" by simp_all
  from generated_tree_shape [OF g b] g b show ?thesis by blast
qed

section \<open>Edits on encoded forests\<close>

lemma length_flat [simp]: "length (flat f) = fsize f"
  by (induction f) auto

lemma length_fadj [simp]: "length (fadj k f) = fsize f"
  by (induction f arbitrary: k) auto

lemma fsize_fapp [simp]: "fsize (fapp f g) = fsize f + fsize g"
  by (induction f) auto

lemma flat_fapp [simp]: "flat (fapp f g) = flat f @ flat g"
  by (induction f) auto

lemma kids_fapp: "kids k (fapp f g) = kids k f @ kids (k + fsize f) g"
  by (induction f arbitrary: k) (auto simp: add.assoc)

lemma fadj_fapp: "fadj k (fapp f g) = fadj k f @ fadj (k + fsize f) g"
  by (induction f arbitrary: k) (auto simp: kids_fapp add.assoc)

lemma plug_comp [simp]: "plug (comp C D) f = plug C (plug D f)"
  by (induction C) auto

lemma cpos_comp [simp]: "cpos (comp C D) = cpos C + cpos D"
  by (induction C) auto

lemma fsize_plug [simp]: "fsize (plug C f) = csize C + fsize f"
  by (induction C) auto

lemma cpos_le: "cpos C \<le> csize C"
  by (induction C) auto

lemma cpos_less: "f \<noteq> E \<Longrightarrow> cpos C < csize C + fsize f"
  using cpos_le [of C] by (cases f) auto

text \<open>The child indices recorded in the rows of an encoded forest lie within it.\<close>

lemma kids_bounds: "x \<in> set (kids k f) \<Longrightarrow> k \<le> x \<and> x < k + fsize f"
  by (induction f arbitrary: k) fastforce+

lemma fadj_bounds: "row \<in> set (fadj k f) \<Longrightarrow> x \<in> set row \<Longrightarrow> k < x \<and> x < k + fsize f"
proof (induction f arbitrary: k)
  case E
  then show ?case by simp
next
  case (T l c s)
  from T.prems(1) consider "row = kids (Suc k) c" | "row \<in> set (fadj (Suc k) c)"
    | "row \<in> set (fadj (Suc (k + fsize c)) s)" by auto
  then show ?case
  proof cases
    case 1
    with T.prems(2) kids_bounds [of x "Suc k" c] show ?thesis by auto
  next
    case 2
    from T.IH(1) [OF this T.prems(2)] show ?thesis by auto
  next
    case 3
    from T.IH(2) [OF this T.prems(2)] show ?thesis by auto
  qed
qed

text \<open>The label and the row at the position of the hole of a context.\<close>

lemma flat_plug_nth: "flat (plug C (T l c s)) ! cpos C = l"
proof (induction C)
  case Hole
  then show ?case by simp
next
  case (Down l' C s')
  have "cpos C < csize C + fsize (T l c s)" by (rule cpos_less) simp
  with Down show ?case by (simp add: nth_append)
next
  case (Right l' c' C)
  then show ?case by (simp add: nth_append)
qed

lemma fadj_plug_nth: "fadj k (plug C (T l c s)) ! cpos C = kids (Suc (k + cpos C)) c"
proof (induction C arbitrary: k)
  case Hole
  then show ?case by simp
next
  case (Down l' C s')
  have "cpos C < csize C + fsize (T l c s)" by (rule cpos_less) simp
  with Down [of "Suc k"] show ?case by (simp add: nth_append)
next
  case (Right l' c' C)
  from Right [of "Suc (k + fsize c')"] show ?case by (simp add: nth_append add.assoc)
qed

text \<open>A deletion at the hole promotes the children of the deleted node.\<close>

lemma drow_Nil [simp]: "drow q cs [] = []"
  by (simp add: drow_def splice_def)

lemma drow_Cons:
  "drow q cs (x # row) = (if x = q then map (dec_above q) cs else [dec_above q x]) @ drow q cs row"
  by (simp add: drow_def splice_def)

lemma drow_append: "drow q cs (r1 @ r2) = drow q cs r1 @ drow q cs r2"
  by (simp add: drow_def splice_def)

lemma drow_no_hit: "q \<notin> set row \<Longrightarrow> drow q cs row = map (dec_above q) row"
  by (induction row) (auto simp: drow_Cons)

lemma drow_below: "\<forall>x \<in> set row. x < q \<Longrightarrow> drow q cs row = row"
  by (induction row) (auto simp: drow_Cons dec_above_def)

lemma kids_dec: "q \<le> k \<Longrightarrow> map (dec_above q) (kids (Suc k) f) = kids k f"
  by (induction f arbitrary: k) (auto simp: dec_above_def)

lemma fadj_dec: "q \<le> k \<Longrightarrow> map (map (dec_above q)) (fadj (Suc k) f) = fadj k f"
  by (induction f arbitrary: k) (auto simp: kids_dec)

lemma kids_drow_above: "q \<le> k \<Longrightarrow> drow q cs (kids (Suc k) f) = kids k f"
proof -
  assume q: "q \<le> k"
  then have "q \<notin> set (kids (Suc k) f)" using kids_bounds by fastforce
  with q show ?thesis by (simp add: drow_no_hit kids_dec)
qed

lemma fadj_drow_above: "q \<le> k \<Longrightarrow> map (drow q cs) (fadj (Suc k) f) = fadj k f"
proof -
  assume q: "q \<le> k"
  have "map (drow q cs) (fadj (Suc k) f) = map (map (dec_above q)) (fadj (Suc k) f)"
  proof (rule map_cong [OF refl])
    fix row assume "row \<in> set (fadj (Suc k) f)"
    with q have "q \<notin> set row" using fadj_bounds by fastforce
    then show "drow q cs row = map (dec_above q) row" by (rule drow_no_hit)
  qed
  with q show ?thesis by (simp add: fadj_dec)
qed

lemma kids_drow_below: "k + fsize f \<le> q \<Longrightarrow> drow q cs (kids k f) = kids k f"
proof -
  assume "k + fsize f \<le> q"
  then have "\<forall>x \<in> set (kids k f). x < q" using kids_bounds by fastforce
  then show ?thesis by (rule drow_below)
qed

lemma fadj_drow_below: "k + fsize f \<le> q \<Longrightarrow> map (drow q cs) (fadj k f) = fadj k f"
proof -
  assume q: "k + fsize f \<le> q"
  have "map (drow q cs) (fadj k f) = map (\<lambda>r. r) (fadj k f)"
  proof (rule map_cong [OF refl])
    fix row assume "row \<in> set (fadj k f)"
    with q have "\<forall>x \<in> set row. x < q" using fadj_bounds by fastforce
    then show "drow q cs row = row" by (rule drow_below)
  qed
  then show ?thesis by simp
qed

lemma remove_nth_0 [simp]: "remove_nth 0 (x # xs) = xs"
  by (simp add: remove_nth_def)

lemma remove_nth_Suc [simp]: "remove_nth (Suc n) (x # xs) = x # remove_nth n xs"
  by (simp add: remove_nth_def)

lemma remove_nth_append1: "n < length xs \<Longrightarrow> remove_nth n (xs @ ys) = remove_nth n xs @ ys"
  by (simp add: remove_nth_def)

lemma remove_nth_append2: "remove_nth (length xs + n) (xs @ ys) = xs @ remove_nth n ys"
  by (simp add: remove_nth_def)

lemma flat_delete: "remove_nth (cpos C) (flat (plug C (T l c s))) = flat (plug C (fapp c s))"
proof (induction C)
  case Hole
  then show ?case by simp
next
  case (Down l' C s')
  have "cpos C < csize C + fsize (T l c s)" by (rule cpos_less) simp
  with Down show ?case by (simp add: remove_nth_append1)
next
  case (Right l' c' C)
  have "remove_nth (length (flat c') + cpos C) (flat c' @ flat (plug C (T l c s)))
        = flat c' @ remove_nth (cpos C) (flat (plug C (T l c s)))"
    by (rule remove_nth_append2)
  with Right show ?case by simp
qed

lemma kids_delete:
  "drow (k + cpos C) (kids (Suc (k + cpos C)) c) (kids k (plug C (T l c s)))
     = kids k (plug C (fapp c s))"
proof (induction C arbitrary: k)
  case Hole
  have "drow k (kids (Suc k) c) (kids (Suc (k + fsize c)) s) = kids (k + fsize c) s"
    by (rule kids_drow_above) simp
  moreover have "map (dec_above k) (kids (Suc k) c) = kids k c"
    by (rule kids_dec) simp
  ultimately show ?case by (simp add: drow_Cons kids_fapp)
next
  case (Down l' C s')
  have "drow (Suc (k + cpos C)) (kids (Suc (Suc (k + cpos C))) c)
          (kids (Suc (Suc (k + csize C + fsize c + fsize s))) s')
        = kids (Suc (k + csize C + fsize c + fsize s)) s'"
    using cpos_le [of C] by (intro kids_drow_above) simp
  then show ?case
    by (simp add: drow_Cons dec_above_def add.assoc)
next
  case (Right l' c' C)
  from Right [of "Suc (k + fsize c')"] show ?case
    by (simp add: drow_Cons dec_above_def add.assoc)
qed

lemma fadj_delete:
  "map (drow (k + cpos C) (kids (Suc (k + cpos C)) c))
       (remove_nth (cpos C) (fadj k (plug C (T l c s))))
     = fadj k (plug C (fapp c s))"
proof (induction C arbitrary: k)
  case Hole
  have "map (drow k (kids (Suc k) c)) (fadj (Suc k) c) = fadj k c"
    by (rule fadj_drow_above) simp
  moreover have "map (drow k (kids (Suc k) c)) (fadj (Suc (k + fsize c)) s) = fadj (k + fsize c) s"
    by (rule fadj_drow_above) simp
  ultimately show ?case by (simp add: fadj_fapp)
next
  case (Down l' C s')
  let ?q = "Suc (k + cpos C)"
  let ?d = "drow ?q (kids (Suc ?q) c)"
  have lt: "cpos C < length (fadj (Suc k) (plug C (T l c s)))"
    using cpos_less [of "T l c s" C] by simp
  have 1: "?d (kids (Suc k) (plug C (T l c s))) = kids (Suc k) (plug C (fapp c s))"
    using kids_delete [of "Suc k" C c l s] by simp
  have 2: "map ?d (remove_nth (cpos C) (fadj (Suc k) (plug C (T l c s))))
           = fadj (Suc k) (plug C (fapp c s))"
    using Down [of "Suc k"] by simp
  have 3: "map ?d (fadj (Suc (Suc (k + csize C + fsize c + fsize s))) s')
           = fadj (Suc (k + csize C + fsize c + fsize s)) s'"
    using cpos_le [of C] by (intro fadj_drow_above) simp
  show ?case
    using 1 2 3 by (simp add: remove_nth_append1 [OF lt] add.assoc)
next
  case (Right l' c' C)
  let ?q = "Suc (k + fsize c' + cpos C)"
  let ?d = "drow ?q (kids (Suc ?q) c)"
  have 1: "?d (kids (Suc k) c') = kids (Suc k) c'"
    by (rule kids_drow_below) simp
  have 2: "map ?d (fadj (Suc k) c') = fadj (Suc k) c'"
    by (rule fadj_drow_below) simp
  have 3: "map ?d (remove_nth (cpos C) (fadj (Suc (k + fsize c')) (plug C (T l c s))))
           = fadj (Suc (k + fsize c')) (plug C (fapp c s))"
    using Right [of "Suc (k + fsize c')"] by simp
  have r: "remove_nth (length (fadj (Suc k) c') + cpos C)
             (fadj (Suc k) c' @ fadj (Suc (k + fsize c')) (plug C (T l c s)))
           = fadj (Suc k) c' @ remove_nth (cpos C) (fadj (Suc (k + fsize c')) (plug C (T l c s)))"
    by (rule remove_nth_append2)
  show ?case
    using 1 2 3 r by (simp add: add.assoc)
qed

lemma apply_deletion_plug:
  "apply_deletion (int (cpos C)) (enc (plug C (T l c s))) = Inr (enc (plug C (fapp c s)))"
proof -
  have lt: "cpos C < csize C + fsize (T l c s)" by (rule cpos_less) simp
  have "fadj 0 (plug C (T l c s)) ! cpos C = kids (Suc (cpos C)) c"
    using fadj_plug_nth [of 0 C l c s] by simp
  moreover have "map (drow (cpos C) (kids (Suc (cpos C)) c))
       (remove_nth (cpos C) (fadj 0 (plug C (T l c s)))) = fadj 0 (plug C (fapp c s))"
    using fadj_delete [of 0 C c l s] by simp
  ultimately show ?thesis
    using lt flat_delete [of C l c s]
    by (simp add: apply_deletion_def enc_def drow_def [abs_def])
qed

text \<open>A replacement at the hole changes the label there and nothing else.\<close>

lemma kids_label: "kids k (plug C (T l c s)) = kids k (plug C (T l' c s))"
  by (induction C arbitrary: k) auto

lemma fadj_label: "fadj k (plug C (T l c s)) = fadj k (plug C (T l' c s))"
  by (induction C arbitrary: k) (auto simp: kids_label [of _ _ l c s l'])

lemma flat_replace: "(flat (plug C (T l c s)))[cpos C := l'] = flat (plug C (T l' c s))"
proof (induction C)
  case Hole
  then show ?case by simp
next
  case (Down l'' C s')
  have "cpos C < length (flat (plug C (T l c s)))"
    using cpos_less [of "T l c s" C] by simp
  with Down show ?case by (simp add: list_update_append)
next
  case (Right l'' c' C)
  then show ?case by (simp add: list_update_append)
qed

lemma apply_replacement_plug:
  "apply_replacement (int (cpos C)) l' (enc (plug C (T l c s))) = Inr (enc (plug C (T l' c s)))"
proof -
  have lt: "cpos C < csize C + fsize (T l c s)" by (rule cpos_less) simp
  then show ?thesis
    using flat_replace [of C l c s l'] fadj_label [of 0 C l c s l']
    by (simp add: apply_replacement_def enc_def)
qed

text \<open>An insertion with span 1 puts the new node above one child.\<close>

lemma length_kids [simp]: "length (kids k f) = ftrees f"
  by (induction f arbitrary: k) auto

lemma kids_inc: "i \<le> k \<Longrightarrow> map (inc_from i) (kids k f) = kids (Suc k) f"
  by (induction f arbitrary: k) (auto simp: inc_from_def)

lemma fadj_inc: "i \<le> Suc k \<Longrightarrow> map (map (inc_from i)) (fadj k f) = fadj (Suc k) f"
  by (induction f arbitrary: k) (auto simp: kids_inc)

lemma kids_inc_below: "k + fsize f \<le> i \<Longrightarrow> map (inc_from i) (kids k f) = kids k f"
proof -
  assume "k + fsize f \<le> i"
  then have "\<forall>x \<in> set (kids k f). inc_from i x = x"
    using kids_bounds by (fastforce simp: inc_from_def)
  then show ?thesis by (simp add: map_idI)
qed

lemma fadj_inc_below: "k + fsize f \<le> i \<Longrightarrow> map (map (inc_from i)) (fadj k f) = fadj k f"
proof -
  assume i: "k + fsize f \<le> i"
  have "map (map (inc_from i)) (fadj k f) = map (\<lambda>r. r) (fadj k f)"
  proof (rule map_cong [OF refl])
    fix row assume "row \<in> set (fadj k f)"
    with i have "\<forall>x \<in> set row. inc_from i x = x"
      using fadj_bounds by (fastforce simp: inc_from_def)
    then show "map (inc_from i) row = row" by (simp add: map_idI)
  qed
  then show ?thesis by simp
qed

lemma insert_nth_0 [simp]: "insert_nth 0 x ys = x # ys"
  by (simp add: insert_nth_def)

lemma insert_nth_Suc [simp]: "insert_nth (Suc p) x (y # ys) = y # insert_nth p x ys"
  by (simp add: insert_nth_def)

lemma insert_nth_append1: "p \<le> length xs \<Longrightarrow> insert_nth p x (xs @ ys) = insert_nth p x xs @ ys"
  by (simp add: insert_nth_def)

lemma insert_nth_append2: "insert_nth (length xs + p) x (xs @ ys) = xs @ insert_nth p x ys"
  by (simp add: insert_nth_def)

lemma insert_nth_length: "insert_nth (length xs) x xs = xs @ [x]"
  by (simp add: insert_nth_def)

lemma flat_insert:
  "insert_nth (Suc (cpos C + fsize b)) lab (flat (plug C (T l (fapp b (T l2 c2 s2)) s)))
     = flat (plug C (T l (fapp b (T lab (T l2 c2 E) s2)) s))"
proof (induction C)
  case Hole
  have "insert_nth (length (flat b) + 0) lab (flat b @ l2 # flat c2 @ flat s2 @ flat s)
        = flat b @ insert_nth 0 lab (l2 # flat c2 @ flat s2 @ flat s)"
    by (rule insert_nth_append2)
  then show ?case by simp
next
  case (Down l' C s')
  have "Suc (cpos C + fsize b) \<le> length (flat (plug C (T l (fapp b (T l2 c2 s2)) s)))"
    using cpos_le [of C] by simp
  from insert_nth_append1 [OF this] Down show ?case by simp
next
  case (Right l' c' C)
  have "insert_nth (length (flat c') + Suc (cpos C + fsize b)) lab
          (flat c' @ flat (plug C (T l (fapp b (T l2 c2 s2)) s)))
        = flat c' @ insert_nth (Suc (cpos C + fsize b)) lab
            (flat (plug C (T l (fapp b (T l2 c2 s2)) s)))"
    by (rule insert_nth_append2)
  with Right show ?case by (simp add: add.assoc)
qed

lemma inc_from_lt: "x < i \<Longrightarrow> inc_from i x = x"
  by (simp add: inc_from_def)

lemma inc_from_ge: "i \<le> x \<Longrightarrow> inc_from i x = Suc x"
  by (simp add: inc_from_def)

lemma kids_insert:
  "map (inc_from (Suc (k + cpos C + fsize b))) (kids k (plug C (T l (fapp b (T l2 c2 s2)) s)))
     = kids k (plug C (T l (fapp b (T lab (T l2 c2 E) s2)) s))"
proof (induction C arbitrary: k)
  case Hole
  have "map (inc_from (Suc (k + fsize b))) (kids (Suc (k + (fsize b + Suc (fsize c2 + fsize s2)))) s)
        = kids (Suc (Suc (k + (fsize b + Suc (fsize c2 + fsize s2))))) s"
    by (rule kids_inc) simp
  then show ?case by (simp add: inc_from_lt)
next
  case (Down l' C s')
  let ?n = "csize C + Suc (fsize b + Suc (fsize c2 + fsize s2) + fsize s)"
  have "map (inc_from (Suc (Suc (k + cpos C + fsize b)))) (kids (Suc (k + ?n)) s')
        = kids (Suc (Suc (k + ?n))) s'"
    using cpos_le [of C] by (intro kids_inc) simp
  then show ?case by (simp add: inc_from_lt add.assoc)
next
  case (Right l' c' C)
  from Right [of "Suc (k + fsize c')"] show ?case
    by (simp add: inc_from_lt add.assoc)
qed

lemma fadj_insert:
  "insert_nth (Suc (cpos C + fsize b)) [Suc (Suc (k + cpos C + fsize b))]
     ((map (map (inc_from (Suc (k + cpos C + fsize b))))
         (fadj k (plug C (T l (fapp b (T l2 c2 s2)) s))))
        [cpos C := kids (Suc (k + cpos C)) (fapp b (T lab (T l2 c2 E) s2))])
     = fadj k (plug C (T l (fapp b (T lab (T l2 c2 E) s2)) s))"
proof (induction C arbitrary: k)
  case Hole
  let ?i = "Suc (k + fsize b)"
  have b: "map (map (inc_from ?i)) (fadj (Suc k) b) = fadj (Suc k) b"
    by (rule fadj_inc_below) simp
  have c: "map (inc_from ?i) (kids (Suc ?i) c2) = kids (Suc (Suc ?i)) c2"
    by (rule kids_inc) simp
  have c': "map (map (inc_from ?i)) (fadj (Suc ?i) c2) = fadj (Suc (Suc ?i)) c2"
    by (rule fadj_inc) simp
  have s2: "map (map (inc_from ?i)) (fadj (Suc (?i + fsize c2)) s2) = fadj (Suc (Suc (?i + fsize c2))) s2"
    by (rule fadj_inc) simp
  have s: "map (map (inc_from ?i)) (fadj (Suc (k + (fsize b + Suc (fsize c2 + fsize s2)))) s)
           = fadj (Suc (Suc (k + (fsize b + Suc (fsize c2 + fsize s2))))) s"
    by (rule fadj_inc) simp
  have i: "insert_nth (length (fadj (Suc k) b) + 0) [Suc ?i]
             (fadj (Suc k) b @ kids (Suc (Suc ?i)) c2 # fadj (Suc (Suc ?i)) c2
                @ fadj (Suc (Suc (?i + fsize c2))) s2
                @ fadj (Suc (Suc (k + (fsize b + Suc (fsize c2 + fsize s2))))) s)
           = fadj (Suc k) b @ insert_nth 0 [Suc ?i] (kids (Suc (Suc ?i)) c2 # fadj (Suc (Suc ?i)) c2
                @ fadj (Suc (Suc (?i + fsize c2))) s2
                @ fadj (Suc (Suc (k + (fsize b + Suc (fsize c2 + fsize s2))))) s)"
    by (rule insert_nth_append2)
  show ?case
    using b c c' s2 s i by (simp add: fadj_fapp add.assoc)
next
  case (Down l' C s')
  let ?X = "T l (fapp b (T l2 c2 s2)) s" and ?X' = "T l (fapp b (T lab (T l2 c2 E) s2)) s"
  let ?i = "Suc (Suc (k + cpos C + fsize b))"
  have lt: "cpos C < length (map (map (inc_from ?i)) (fadj (Suc k) (plug C ?X)))"
    using cpos_less [of ?X C] by simp
  have le: "Suc (cpos C + fsize b) \<le> length ((map (map (inc_from ?i)) (fadj (Suc k) (plug C ?X)))
              [cpos C := kids (Suc (Suc k + cpos C)) (fapp b (T lab (T l2 c2 E) s2))])"
    using cpos_le [of C] by simp
  have 1: "map (inc_from ?i) (kids (Suc k) (plug C ?X)) = kids (Suc k) (plug C ?X')"
    using kids_insert [of "Suc k" C b l l2 c2 s2 s lab] by simp
  have 2: "insert_nth (Suc (cpos C + fsize b)) [Suc ?i]
     ((map (map (inc_from ?i)) (fadj (Suc k) (plug C ?X)))
        [cpos C := kids (Suc (Suc k + cpos C)) (fapp b (T lab (T l2 c2 E) s2))])
     = fadj (Suc k) (plug C ?X')"
    using Down [of "Suc k"] by simp
  have 3: "map (map (inc_from ?i)) (fadj (Suc (k + (csize C + fsize ?X))) s')
           = fadj (Suc (Suc (k + (csize C + fsize ?X)))) s'"
    using cpos_le [of C] by (intro fadj_inc) simp
  have "insert_nth (Suc (cpos C + fsize b)) [Suc ?i]
          (((map (map (inc_from ?i)) (fadj (Suc k) (plug C ?X)))
              [cpos C := kids (Suc (Suc k + cpos C)) (fapp b (T lab (T l2 c2 E) s2))])
           @ fadj (Suc (Suc (k + (csize C + fsize ?X)))) s')
        = fadj (Suc k) (plug C ?X') @ fadj (Suc (Suc (k + (csize C + fsize ?X)))) s'"
    using insert_nth_append1 [OF le] 2 by simp
  then show ?case
    using 1 3 lt by (simp add: list_update_append add.assoc)
next
  case (Right l' c' C)
  let ?X = "T l (fapp b (T l2 c2 s2)) s" and ?X' = "T l (fapp b (T lab (T l2 c2 E) s2)) s"
  let ?k = "Suc (k + fsize c')"
  let ?i = "Suc (?k + cpos C + fsize b)"
  have 1: "map (inc_from ?i) (kids (Suc k) c') = kids (Suc k) c'"
    by (rule kids_inc_below) simp
  have 2: "map (map (inc_from ?i)) (fadj (Suc k) c') = fadj (Suc k) c'"
    by (rule fadj_inc_below) simp
  have 3: "insert_nth (Suc (cpos C + fsize b)) [Suc ?i]
     ((map (map (inc_from ?i)) (fadj ?k (plug C ?X)))
        [cpos C := kids (Suc (?k + cpos C)) (fapp b (T lab (T l2 c2 E) s2))])
     = fadj ?k (plug C ?X')"
    using Right [of ?k] by simp
  have u: "(fadj (Suc k) c' @ map (map (inc_from ?i)) (fadj ?k (plug C ?X)))
             [length (fadj (Suc k) c') + cpos C := kids (Suc (?k + cpos C)) (fapp b (T lab (T l2 c2 E) s2))]
           = fadj (Suc k) c' @ (map (map (inc_from ?i)) (fadj ?k (plug C ?X)))
             [cpos C := kids (Suc (?k + cpos C)) (fapp b (T lab (T l2 c2 E) s2))]"
    by (simp add: list_update_append)
  have v: "insert_nth (length (fadj (Suc k) c') + Suc (cpos C + fsize b)) [Suc ?i]
             (fadj (Suc k) c' @ (map (map (inc_from ?i)) (fadj ?k (plug C ?X)))
               [cpos C := kids (Suc (?k + cpos C)) (fapp b (T lab (T l2 c2 E) s2))])
           = fadj (Suc k) c' @ fadj ?k (plug C ?X')"
    using insert_nth_append2 [of "fadj (Suc k) c'" "Suc (cpos C + fsize b)"] 3 by simp
  show ?case
    using 1 2 u v by (simp add: add.assoc)
qed

lemma apply_insertion_eq:
  assumes "p < length nodes" and "p < length adj" and "adj ! p = cs" and "slot < length cs"
    and "cs ! slot = idx"
  shows "apply_insertion (int p) slot lab 1 (nodes, adj)
         = Inr (insert_nth idx lab nodes,
                insert_nth idx (map (inc_from idx) (take 1 (drop slot cs)))
                  ((map (map (inc_from idx)) adj)
                     [p := take slot cs @ idx # map (inc_from idx) (drop (slot + 1) cs)]))"
  using assms by (auto simp: apply_insertion_def Let_def)

lemma apply_insertion_plug:
  "apply_insertion (int (cpos C)) (ftrees b) lab 1 (enc (plug C (T l (fapp b (T l2 c2 s2)) s)))
     = Inr (enc (plug C (T l (fapp b (T lab (T l2 c2 E) s2)) s)))"
proof -
  let ?X = "T l (fapp b (T l2 c2 s2)) s" and ?X' = "T l (fapp b (T lab (T l2 c2 E) s2)) s"
  let ?p = "cpos C"
  let ?i = "Suc (?p + fsize b)"
  let ?cs = "kids (Suc ?p) b @ ?i # kids (Suc (?i + fsize c2)) s2"
  have lt: "?p < csize C + fsize ?X" by (rule cpos_less) simp
  then have l1: "?p < length (flat (plug C ?X))" and l2: "?p < length (fadj 0 (plug C ?X))"
    by simp_all
  have cs: "fadj 0 (plug C ?X) ! ?p = ?cs"
    using fadj_plug_nth [of 0 C l "fapp b (T l2 c2 s2)" s] by (simp add: kids_fapp)
  have sl: "ftrees b < length ?cs" by simp
  have nth: "?cs ! ftrees b = ?i"
    using nth_append_length [of "kids (Suc ?p) b" ?i] by simp
  have tk: "take (ftrees b) ?cs = kids (Suc ?p) b" by simp
  have dr: "drop (ftrees b) ?cs = ?i # kids (Suc (?i + fsize c2)) s2" by simp
  have dr': "drop (ftrees b + 1) ?cs = kids (Suc (?i + fsize c2)) s2" by simp
  have inc: "map (inc_from ?i) (kids (Suc (?i + fsize c2)) s2) = kids (Suc (Suc (?i + fsize c2))) s2"
    by (rule kids_inc) simp
  have kept: "take (ftrees b) ?cs @ ?i # map (inc_from ?i) (drop (ftrees b + 1) ?cs)
              = kids (Suc ?p) (fapp b (T lab (T l2 c2 E) s2))"
    unfolding tk dr' inc by (simp add: kids_fapp)
  have taken: "map (inc_from ?i) (take 1 (drop (ftrees b) ?cs)) = [Suc ?i]"
    unfolding dr by (simp add: inc_from_ge)
  have rows: "insert_nth ?i [Suc ?i]
     ((map (map (inc_from ?i)) (fadj 0 (plug C ?X)))
        [?p := kids (Suc ?p) (fapp b (T lab (T l2 c2 E) s2))])
     = fadj 0 (plug C ?X')"
    using fadj_insert [of C b 0 l l2 c2 s2 s lab] by simp
  have labels: "insert_nth ?i lab (flat (plug C ?X)) = flat (plug C ?X')"
    by (rule flat_insert)
  show ?thesis
    unfolding enc_def apply_insertion_eq [OF l1 l2 cs sl nth] kept taken rows labels
    by (rule refl)
qed

section \<open>The script of a pass applied to an expression\<close>

lemma fsize_tr [simp]: "fsize (tr e s) = esize e + fsize s"
  by (induction e arbitrary: s) auto

lemma apply_script_append:
  "apply_script (xs @ ys) t = ebind (apply_script xs t) (apply_script ys)"
proof (induction xs arbitrary: t)
  case Nil
  then show ?case by simp
next
  case (Cons x xs)
  then show ?case by (cases "apply_edit x t") simp_all
qed

lemma fapp_E [simp]: "fapp f E = f"
  by (induction f) auto

lemma tr_eq: "tr e s = T (root_label e) (children e) s"
  by (cases e) auto

lemma esize_sub: "esize e = Suc (fsize (children e))"
  by (cases e) auto

lemma fapp_tr: "fapp (tr a f) g = tr a (fapp f g)"
  by (cases a) auto

lemma apply_scr:
  "apply_script (scr (int (cpos C)) e) (enc (plug C (tr e s))) = Inr (enc (plug C (tr (step e) s)))"
proof (induction e arbitrary: C s rule: step.induct)
  case (1 z)
  then show ?case by simp
next
  case (2 z)
  have "apply_deletion (int (cpos C)) (enc (plug C (T ''succ'' (T (py_str z) E E) s)))
        = Inr (enc (plug C (T (py_str z) E s)))"
    using apply_deletion_plug [of C "''succ''" "T (py_str z) E E" s] by simp
  moreover have "apply_replacement (int (cpos C)) (py_str ((z + 1) mod 10)) (enc (plug C (T (py_str z) E s)))
        = Inr (enc (plug C (T (py_str ((z + 1) mod 10)) E s)))"
    by (rule apply_replacement_plug)
  ultimately show ?case by simp
next
  case (3 e)
  from 3 [of "comp C (Down ''succ'' Hole s)" E] show ?case
    by (simp add: add.commute)
next
  case (4 a b)
  from 4 [of "comp C (Down ''succ'' Hole s)" E] show ?case
    by (simp add: add.commute)
next
  case (5 a z)
  let ?q = "int (cpos C)"
  show ?case
  proof (cases "z = 0")
    case True
    let ?C1 = "comp C (Right (root_label a) (children a) Hole)"
    have d1: "apply_deletion ?q (enc (plug C (T ''+'' (tr a (T (py_str 0) E E)) s)))
              = Inr (enc (plug C (tr a (T (py_str 0) E s))))"
      using apply_deletion_plug [of C "''+''" "tr a (T (py_str 0) E E)" s]
      by (simp add: fapp_tr)
    have p1: "?q + int (esize a) = int (cpos ?C1)"
      by (simp add: esize_sub)
    have d2: "apply_deletion (?q + int (esize a)) (enc (plug C (tr a (T (py_str 0) E s))))
              = Inr (enc (plug C (tr a s)))"
      unfolding p1 using apply_deletion_plug [of ?C1 "py_str 0" E s]
      by (simp add: tr_eq [of a])
    from True d1 d2 "5.IH"(1) [OF True, of C s] show ?thesis
      by (simp add: apply_script_append)
  next
    case False
    let ?C2 = "comp C (Down ''+'' (Right (root_label a) (children a) (Down ''succ'' Hole E)) s)"
    let ?C3 = "comp C (Down ''+'' Hole s)"
    have i1: "apply_insertion ?q 1 ''succ'' 1 (enc (plug C (T ''+'' (tr a (T (py_str z) E E)) s)))
              = Inr (enc (plug C (T ''+'' (tr a (T ''succ'' (T (py_str z) E E) E)) s)))"
      using apply_insertion_plug [of C "tr a E" "''succ''" "''+''" "py_str z" E E s]
      by (simp add: tr_eq [of a])
    have p2: "?q + int (esize a) + 2 = int (cpos ?C2)"
      by (simp add: esize_sub)
    have r2: "apply_replacement (?q + int (esize a) + 2) (py_str (z - 1))
                (enc (plug C (T ''+'' (tr a (T ''succ'' (T (py_str z) E E) E)) s)))
              = Inr (enc (plug C (T ''+'' (tr a (T ''succ'' (T (py_str (z - 1)) E E) E)) s)))"
      unfolding p2 using apply_replacement_plug [of ?C2 "py_str (z - 1)" "py_str z" E E]
      by (simp add: tr_eq [of a])
    have p3: "?q + 1 = int (cpos ?C3)" by simp
    have a3: "apply_script (scr (?q + 1) a)
                (enc (plug C (T ''+'' (tr a (T ''succ'' (T (py_str (z - 1)) E E) E)) s)))
              = Inr (enc (plug C (T ''+'' (tr (step a) (T ''succ'' (T (py_str (z - 1)) E E) E)) s)))"
      unfolding p3 using "5.IH"(2) [OF False, of ?C3 "T ''succ'' (T (py_str (z - 1)) E E) E"]
      by simp
    from False i1 r2 a3 show ?thesis
      by (simp add: apply_script_append)
  qed
next
  case (6 a c)
  let ?q = "int (cpos C)"
  let ?Cd = "comp C (Down ''+'' (Right ''succ'' (tr a E) Hole) s)"
  let ?Ca = "comp C (Down ''+'' (Down ''succ'' Hole (tr c E)) s)"
  let ?Cc = "comp C (Down ''+'' (Right ''succ'' (tr (step a) E) Hole) s)"
  have i1: "apply_insertion ?q 0 ''succ'' 1 (enc (plug C (T ''+'' (tr a (T ''succ'' (tr c E) E)) s)))
            = Inr (enc (plug C (T ''+'' (T ''succ'' (tr a E) (T ''succ'' (tr c E) E)) s)))"
    using apply_insertion_plug [of C E "''succ''" "''+''" "root_label a" "children a" "T ''succ'' (tr c E) E" s]
    by (simp add: tr_eq [of a])
  have p2: "?q + int (esize a) + 2 = int (cpos ?Cd)" by simp
  have d2: "apply_deletion (?q + int (esize a) + 2)
              (enc (plug C (T ''+'' (T ''succ'' (tr a E) (T ''succ'' (tr c E) E)) s)))
            = Inr (enc (plug C (T ''+'' (T ''succ'' (tr a E) (tr c E)) s)))"
    unfolding p2 using apply_deletion_plug [of ?Cd "''succ''" "tr c E" E] by simp
  have p3: "?q + 2 = int (cpos ?Ca)" by simp
  have a3: "apply_script (scr (?q + 2) a)
              (enc (plug C (T ''+'' (T ''succ'' (tr a E) (tr c E)) s)))
            = Inr (enc (plug C (T ''+'' (T ''succ'' (tr (step a) E) (tr c E)) s)))"
    unfolding p3 using "6.IH"(1) [of ?Ca E] by simp
  have p4: "?q + 2 + int (esize (step a)) = int (cpos ?Cc)" by simp
  have a4: "apply_script (scr (?q + 2 + int (esize (step a))) c)
              (enc (plug C (T ''+'' (T ''succ'' (tr (step a) E) (tr c E)) s)))
            = Inr (enc (plug C (T ''+'' (T ''succ'' (tr (step a) E) (tr (step c) E)) s)))"
    unfolding p4 using "6.IH"(2) [of ?Cc E] by simp
  from i1 d2 a3 a4 show ?case
    by (simp add: apply_script_append)
next
  case (7 a b c)
  let ?q = "int (cpos C)"
  let ?Ca = "comp C (Down ''+'' Hole s)"
  let ?Cb = "comp C (Down ''+'' (Right (root_label (step a)) (children (step a)) Hole) s)"
  have p1: "?q + 1 = int (cpos ?Ca)" by simp
  have a1: "apply_script (scr (?q + 1) a) (enc (plug C (T ''+'' (tr a (tr (Plus b c) E)) s)))
            = Inr (enc (plug C (T ''+'' (tr (step a) (tr (Plus b c) E)) s)))"
    unfolding p1 using "7.IH"(1) [of ?Ca "tr (Plus b c) E"] by simp
  have p2: "?q + 1 + int (esize (step a)) = int (cpos ?Cb)"
    by (simp add: esize_sub)
  have a2: "apply_script (scr (?q + 1 + int (esize (step a))) (Plus b c))
              (enc (plug C (T ''+'' (tr (step a) (tr (Plus b c) E)) s)))
            = Inr (enc (plug C (T ''+'' (tr (step a) (tr (step (Plus b c)) E)) s)))"
    unfolding p2 using "7.IH"(2) [of ?Cb E] by (simp add: tr_eq [of "step a"])
  from a1 a2 show ?case
    by (simp add: apply_script_append)
qed

section \<open>The parent array of an encoded forest\<close>

lemma length_fpar [simp]: "length (fpar k p f) = fsize f"
  by (induction f arbitrary: k p) auto

lemma kids_fpar:
  "j \<in> set (kids k f) \<Longrightarrow> k \<le> j \<and> j < k + fsize f \<and> fpar k p f ! (j - k) = p"
proof (induction f arbitrary: k)
  case E
  then show ?case by simp
next
  case (T l c s)
  show ?case
  proof (cases "j = k")
    case True
    then show ?thesis by simp
  next
    case False
    with T.prems have "j \<in> set (kids (Suc (k + fsize c)) s)" by simp
    from T.IH(2) [OF this] have 1: "Suc (k + fsize c) \<le> j" "j < Suc (k + fsize c) + fsize s"
      and 2: "fpar (Suc (k + fsize c)) p s ! (j - Suc (k + fsize c)) = p" by simp_all
    from 1 obtain m where m: "j = Suc (k + fsize c) + m" using le_Suc_ex by blast
    with 2 have "fpar (Suc (k + fsize c)) p s ! m = p" by simp
    moreover from m have "j - k = Suc (fsize c + m)" by simp
    ultimately have "fpar k p (T l c s) ! (j - k) = p"
      by (simp add: nth_append)
    with 1 show ?thesis by simp
  qed
qed

lemma fadj_fpar:
  "i < fsize f \<Longrightarrow> j \<in> set (fadj k f ! i) \<Longrightarrow>
     k < j \<and> j < k + fsize f \<and> fpar k p f ! (j - k) = k + i"
proof (induction f arbitrary: k i p)
  case E
  then show ?case by simp
next
  case (T l c s)
  consider "i = 0" | m where "i = Suc m" "m < fsize c" | m where "i = Suc (fsize c + m)" "m < fsize s"
  proof (cases i)
    case 0
    then show ?thesis using that by simp
  next
    case (Suc m)
    show ?thesis
    proof (cases "m < fsize c")
      case True
      with Suc that show ?thesis by simp
    next
      case False
      then obtain m' where "m = fsize c + m'" using le_Suc_ex [of "fsize c" m] by auto
      with Suc T.prems(1) that(3) [of m'] show ?thesis by simp
    qed
  qed
  then show ?case
  proof cases
    case 1
    with T.prems have "j \<in> set (kids (Suc k) c)" by simp
    from kids_fpar [OF this, of k] have a: "Suc k \<le> j" "j < Suc k + fsize c"
      and b: "fpar (Suc k) k c ! (j - Suc k) = k" by simp_all
    from a obtain n where n: "j = Suc k + n" "n < fsize c" using le_Suc_ex [of "Suc k" j] by auto
    with b have "fpar (Suc k) k c ! n = k" by simp
    moreover from n have "j - k = Suc n" by simp
    ultimately have "fpar k p (T l c s) ! (j - k) = k" using n by (simp add: nth_append)
    with a 1 show ?thesis by simp
  next
    case (2 m)
    with T.prems have "j \<in> set (fadj (Suc k) c ! m)" by (simp add: nth_append)
    from T.IH(1) [OF 2(2) this, of k] have a: "Suc k < j" "j < Suc k + fsize c"
      and b: "fpar (Suc k) k c ! (j - Suc k) = Suc k + m" by simp_all
    from a obtain n where n: "j = Suc k + n" "n < fsize c" using le_Suc_ex [of "Suc k" j] by auto
    with b have "fpar (Suc k) k c ! n = Suc k + m" by simp
    moreover from n have "j - k = Suc n" by simp
    ultimately have "fpar k p (T l c s) ! (j - k) = Suc k + m" using n by (simp add: nth_append)
    with a 2 show ?thesis by simp
  next
    case (3 m)
    with T.prems have "j \<in> set (fadj (Suc (k + fsize c)) s ! m)" by (simp add: nth_append)
    from T.IH(2) [OF 3(2) this, of p] have a: "Suc (k + fsize c) < j" "j < Suc (k + fsize c) + fsize s"
      and b: "fpar (Suc (k + fsize c)) p s ! (j - Suc (k + fsize c)) = Suc (k + fsize c) + m"
      by simp_all
    from a obtain n where n: "j = Suc (k + fsize c) + n" using le_Suc_ex [of "Suc (k + fsize c)" j] by auto
    with b have "fpar (Suc (k + fsize c)) p s ! n = Suc (k + fsize c) + m" by simp
    moreover from n have "j - k = Suc (fsize c + n)" by simp
    ultimately have "fpar k p (T l c s) ! (j - k) = Suc (k + fsize c) + m"
      by (simp add: nth_append)
    with a 3 show ?thesis by simp
  qed
qed

lemma fadj_unique:
  assumes "i < fsize f" "i' < fsize f" "j \<in> set (fadj k f ! i)" "j \<in> set (fadj k f ! i')"
  shows "i = i'"
  using fadj_fpar [OF assms(1) assms(3), of 0] fadj_fpar [OF assms(2) assms(4), of 0] by simp

lemma set_parents_ok:
  "\<forall>j \<in> set cs. j < length pi' \<Longrightarrow>
     \<exists>pi2. set_parents i cs pi' = Inr pi2 \<and> length pi2 = length pi'
        \<and> (\<forall>j < length pi'. pi2 ! j = (if j \<in> set cs then i else pi' ! j))"
proof (induction cs arbitrary: pi')
  case Nil
  then show ?case by simp
next
  case (Cons c cs)
  then have c: "c < length pi'" and r: "\<forall>j \<in> set cs. j < length (pi'[c := i])" by simp_all
  from Cons.IH [OF r] obtain pi2 where
    1: "set_parents i cs (pi'[c := i]) = Inr pi2" and 2: "length pi2 = length pi'"
    and 3: "\<forall>j < length pi'. pi2 ! j = (if j \<in> set cs then i else pi'[c := i] ! j)"
    by auto
  have "\<forall>j < length pi'. pi2 ! j = (if j \<in> set (c # cs) then i else pi' ! j)"
  proof (intro allI impI)
    fix j assume j: "j < length pi'"
    with 3 have "pi2 ! j = (if j \<in> set cs then i else pi'[c := i] ! j)" by blast
    with j show "pi2 ! j = (if j \<in> set (c # cs) then i else pi' ! j)"
      by (cases "j = c") auto
  qed
  with 1 2 c show ?case by simp
qed

lemma parents_loop_ok:
  assumes "\<forall>i \<in> set is. i < length adj \<and> (\<forall>j \<in> set (adj ! i). j < length pi')"
    and "\<forall>i \<in> set is. \<forall>i' \<in> set is. \<forall>j. j \<in> set (adj ! i) \<and> j \<in> set (adj ! i') \<longrightarrow> i = i'"
  shows "\<exists>pi2. parents_loop adj is pi' = Inr pi2 \<and> length pi2 = length pi'
        \<and> (\<forall>i \<in> set is. \<forall>j \<in> set (adj ! i). pi2 ! j = i)
        \<and> (\<forall>j < length pi'. (\<forall>i \<in> set is. j \<notin> set (adj ! i)) \<longrightarrow> pi2 ! j = pi' ! j)"
  using assms
proof (induction "is" arbitrary: pi')
  case Nil
  then show ?case by simp
next
  case (Cons i0 "is")
  from Cons.prems(1) have i0: "i0 < length adj" and b0: "\<forall>j \<in> set (adj ! i0). j < length pi'"
    by simp_all
  from set_parents_ok [OF b0, of i0] obtain p1 where
    1: "set_parents i0 (adj ! i0) pi' = Inr p1" and 2: "length p1 = length pi'"
    and 3: "\<forall>j < length pi'. p1 ! j = (if j \<in> set (adj ! i0) then i0 else pi' ! j)"
    by blast
  from Cons.prems(1) 2 have a: "\<forall>i \<in> set is. i < length adj \<and> (\<forall>j \<in> set (adj ! i). j < length p1)"
    by simp
  from Cons.prems(2) have u: "\<forall>i \<in> set is. \<forall>i' \<in> set is. \<forall>j. j \<in> set (adj ! i) \<and> j \<in> set (adj ! i') \<longrightarrow> i = i'"
    by simp
  from Cons.IH [OF a u] obtain pi2 where 4: "parents_loop adj is p1 = Inr pi2"
    and 5: "length pi2 = length p1"
    and 6: "\<forall>i \<in> set is. \<forall>j \<in> set (adj ! i). pi2 ! j = i"
    and 7: "\<forall>j < length p1. (\<forall>i \<in> set is. j \<notin> set (adj ! i)) \<longrightarrow> pi2 ! j = p1 ! j"
    by blast
  have 8: "\<forall>j \<in> set (adj ! i0). pi2 ! j = i0"
  proof
    fix j assume j: "j \<in> set (adj ! i0)"
    show "pi2 ! j = i0"
    proof (cases "\<exists>i \<in> set is. j \<in> set (adj ! i)")
      case True
      then obtain i where i: "i \<in> set is" "j \<in> set (adj ! i)" by blast
      with Cons.prems(2) j have "i = i0" by auto
      with 6 i show ?thesis by blast
    next
      case False
      from j b0 2 have "j < length p1" by simp
      with 7 False have "pi2 ! j = p1 ! j" by blast
      with 3 j b0 show ?thesis by simp
    qed
  qed
  have 9: "\<forall>j < length pi'. (\<forall>i \<in> set (i0 # is). j \<notin> set (adj ! i)) \<longrightarrow> pi2 ! j = pi' ! j"
  proof (intro allI impI)
    fix j assume j: "j < length pi'" and n: "\<forall>i \<in> set (i0 # is). j \<notin> set (adj ! i)"
    with 7 2 have "pi2 ! j = p1 ! j" by simp
    with 3 j n show "pi2 ! j = pi' ! j" by simp
  qed
  have 10: "\<forall>i \<in> set (i0 # is). \<forall>j \<in> set (adj ! i). pi2 ! j = i"
    using 6 8 by simp
  from 1 4 i0 have 11: "parents_loop adj (i0 # is) pi' = Inr pi2" by simp
  from 5 2 have 12: "length pi2 = length pi'" by simp
  show ?case
    by (rule exI [of _ pi2]) (intro conjI 11 12 10 9)
qed

lemma parents_enc:
  "\<exists>pi'. parents (flat f) (fadj 0 f) = Inr pi' \<and> length pi' = fsize f \<and> parent_ok (fadj 0 f) pi'"
proof -
  let ?n = "fsize f"
  have a: "\<forall>i \<in> set [0..<?n]. i < length (fadj 0 f)
             \<and> (\<forall>j \<in> set (fadj 0 f ! i). j < length (replicate ?n (0::nat)))"
  proof (intro ballI conjI)
    fix i assume "i \<in> set [0..<?n]"
    then show i: "i < length (fadj 0 f)" by simp
    fix j assume "j \<in> set (fadj 0 f ! i)"
    with i fadj_bounds [of "fadj 0 f ! i" 0 f j] show "j < length (replicate ?n (0::nat))"
      by simp
  qed
  have u: "\<forall>i \<in> set [0..<?n]. \<forall>i' \<in> set [0..<?n]. \<forall>j.
             j \<in> set (fadj 0 f ! i) \<and> j \<in> set (fadj 0 f ! i') \<longrightarrow> i = i'"
    using fadj_unique [of _ f _ _ 0] by auto
  from parents_loop_ok [OF a u] obtain pi2 where
    "parents_loop (fadj 0 f) [0..<?n] (replicate ?n 0) = Inr pi2" "length pi2 = ?n"
    "\<forall>i \<in> set [0..<?n]. \<forall>j \<in> set (fadj 0 f ! i). pi2 ! j = i"
    by auto
  then show ?thesis
    by (auto simp: parents_def parent_ok_def)
qed

section \<open>The matcher on an encoded expression\<close>

lemma match_loop_append:
  "match_loop nodes adj pi' (xs @ ys) st
     = ebind (match_loop nodes adj pi' xs st) (match_loop nodes adj pi' ys)"
proof (induction xs arbitrary: st)
  case Nil
  then show ?case by simp
next
  case (Cons x xs)
  then show ?case by (cases "match_node nodes adj pi' x st") simp_all
qed

lemma upt_node: "[k..<k + Suc m] = k # [Suc k..<Suc k + m]"
  by (simp add: upt_rec)

lemma upt_split: "[k..<k + (m + n)] = [k..<k + m] @ [k + m..<k + m + n]"
  by (metis add.assoc le_add1 upt_add_eq_append)

lemma mn_num: "nodes ! k = py_str z \<Longrightarrow> match_node nodes adj pi' k st = Inr st"
  by (simp add: match_node_def)

lemma mn_blocked:
  "nodes ! k = ''succ'' \<Longrightarrow> nodes ! (pi' ! k) = ''+'' \<Longrightarrow> int (pi' ! k) \<noteq> int k - 1 \<Longrightarrow>
     match_node nodes adj pi' k st = Inr st"
  by (simp add: match_node_def)

lemma mn_succ_num:
  assumes "nodes ! k = ''succ''" and "nodes ! (pi' ! k) \<noteq> ''+'' \<or> int (pi' ! k) = int k - 1"
    and "k < length adj" and "adj ! k = [c]" and "c < length nodes" and "nodes ! c = py_str z"
  shows "match_node nodes adj pi' k (script, sh)
         = Inr (script @ [Deletion (int k + sh ! k),
                          Replacement (int c + add_from (k + 1) (- 1) sh ! c) (py_str ((z + 1) mod 10))],
                add_from (k + 1) (- 1) sh)"
  using assms by (auto simp: match_node_def match_succ_def py_int_py_str Let_def)

lemma mn_succ_other:
  assumes "nodes ! k = ''succ''" and "k < length adj" and "adj ! k = [c]" and "c < length nodes"
    and "nodes ! c = ''succ'' \<or> nodes ! c = ''+''"
  shows "match_node nodes adj pi' k st = Inr st"
  using assms by (cases st) (auto simp: match_node_def match_succ_def)

lemma mn_plus_zero:
  assumes "nodes ! k = ''+''" and "k < length adj" and "adj ! k = [l, r]" and "r < length nodes"
    and "nodes ! r = py_str 0"
  shows "match_node nodes adj pi' k (script, sh)
         = Inr (script @ [Deletion (int k + sh ! k),
                          Deletion (int r + add_from (k + 1) (- 1) sh ! r)],
                add_from (r + 1) (- 1) (add_from (k + 1) (- 1) sh))"
  using assms by (simp add: match_node_def match_plus_def Let_def)

lemma mn_plus_succ:
  assumes "nodes ! k = ''+''" and "k < length adj" and "adj ! k = [l, r]" and "r < length nodes"
    and "nodes ! r = ''succ''"
  shows "match_node nodes adj pi' k (script, sh)
         = Inr (script @ [Insertion (int k + sh ! k) 0 ''succ'' 1,
                          Deletion (int r + add_slice (k + 1) (r + 1) 1 sh ! r)],
                add_slice (k + 1) (r + 1) 1 sh)"
  using assms by (simp add: match_node_def match_plus_def Let_def)

lemma mn_plus_num:
  assumes "nodes ! k = ''+''" and "k < length adj" and "adj ! k = [l, r]" and "r < length nodes"
    and "nodes ! r = py_str z" and "z \<noteq> 0"
  shows "match_node nodes adj pi' k (script, sh)
         = Inr (script @ [Insertion (int k + sh ! k) 1 ''succ'' 1,
                          Replacement (int r + add_from r 1 sh ! r) (py_str (z - 1))],
                add_from r 1 sh)"
  using assms by (simp add: match_node_def match_plus_def Let_def py_int_py_str)

lemma mn_plus_plus:
  assumes "nodes ! k = ''+''" and "k < length adj" and "adj ! k = [l, r]" and "r < length nodes"
    and "nodes ! r = ''+''"
  shows "match_node nodes adj pi' k st = Inr st"
  using assms by (cases st) (simp add: match_node_def match_plus_def)

lemma kids_tr: "kids k (tr e s) = k # kids (k + esize e) s"
  by (cases e) (auto simp: add.assoc)

lemma at_num:
  assumes "F = plug C (tr (Num z) s)"
  shows "flat F ! cpos C = py_str z"
  using assms flat_plug_nth [of C "py_str z" E s] by simp

lemma at_succ:
  assumes "F = plug C (tr (Succ x) s)"
  shows "cpos C < fsize F" and "flat F ! cpos C = ''succ''" and "fadj 0 F ! cpos C = [Suc (cpos C)]"
    and "Suc (cpos C) < fsize F" and "flat F ! Suc (cpos C) = root_label x"
    and "F = plug (comp C (Down ''succ'' Hole s)) (tr x E)"
proof -
  let ?D = "comp C (Down ''succ'' Hole s)"
  show d: "F = plug ?D (tr x E)" using assms by simp
  show "cpos C < fsize F" "Suc (cpos C) < fsize F"
    using assms cpos_le [of C] by (simp_all add: esize_sub)
  show "flat F ! cpos C = ''succ''" using assms flat_plug_nth [of C "''succ''" "tr x E" s] by simp
  show "fadj 0 F ! cpos C = [Suc (cpos C)]"
    using assms fadj_plug_nth [of 0 C "''succ''" "tr x E" s] by (simp add: kids_tr)
  show "flat F ! Suc (cpos C) = root_label x"
    using d flat_plug_nth [of ?D "root_label x" "children x" E] by (simp add: tr_eq [of x])
qed

lemma at_plus:
  assumes "F = plug C (tr (Plus a b) s)"
  shows "cpos C < fsize F" and "flat F ! cpos C = ''+''"
    and "fadj 0 F ! cpos C = [Suc (cpos C), Suc (cpos C + esize a)]"
    and "Suc (cpos C + esize a) < fsize F" and "flat F ! Suc (cpos C + esize a) = root_label b"
    and "F = plug (comp C (Down ''+'' Hole s)) (tr a (tr b E))"
    and "F = plug (comp C (Down ''+'' (Right (root_label a) (children a) Hole) s)) (tr b E)"
proof -
  let ?D = "comp C (Down ''+'' (Right (root_label a) (children a) Hole) s)"
  show "F = plug (comp C (Down ''+'' Hole s)) (tr a (tr b E))" using assms by simp
  show d: "F = plug ?D (tr b E)" using assms by (simp add: tr_eq [of a])
  show "cpos C < fsize F" "Suc (cpos C + esize a) < fsize F"
    using assms cpos_le [of C] by (simp_all add: esize_sub [of b])
  show "flat F ! cpos C = ''+''"
    using assms flat_plug_nth [of C "''+''" "tr a (tr b E)" s] by simp
  show "fadj 0 F ! cpos C = [Suc (cpos C), Suc (cpos C + esize a)]"
    using assms fadj_plug_nth [of 0 C "''+''" "tr a (tr b E)" s] by (simp add: kids_tr)
  have "cpos ?D = Suc (cpos C + esize a)" by (simp add: esize_sub [of a])
  then show "flat F ! Suc (cpos C + esize a) = root_label b"
    using d flat_plug_nth [of ?D "root_label b" "children b" E] by (simp add: tr_eq [of b])
qed

lemma parent_okD: "parent_ok adj pi' \<Longrightarrow> i < length adj \<Longrightarrow> j \<in> set (adj ! i) \<Longrightarrow> pi' ! j = i"
  by (simp add: parent_ok_def)

lemma upt_plus:
  "[k..<k + esize (Plus a b)]
     = k # [Suc k..<Suc k + esize a] @ [Suc (k + esize a)..<Suc (k + esize a) + esize b]"
proof -
  have "[k..<k + esize (Plus a b)] = k # [Suc k..<Suc k + (esize a + esize b)]"
    using upt_node [of k "esize a + esize b"] by simp
  also have "[Suc k..<Suc k + (esize a + esize b)]
             = [Suc k..<Suc k + esize a] @ [Suc k + esize a..<Suc k + esize a + esize b]"
    by (rule upt_split)
  finally show ?thesis by simp
qed

lemma upt_succ: "[k..<k + esize (Succ x)] = k # [Suc k..<Suc k + esize x]"
  using upt_node [of k "esize x"] by simp

lemma match_loop_skip:
  "match_node n a p k st = Inr st \<Longrightarrow> match_loop n a p ks st = R
   \<Longrightarrow> match_loop n a p (k # ks) st = R"
  by simp

lemma match_loop_cons_append:
  "match_node n ad p k st = Inr st1 \<Longrightarrow> match_loop n ad p A st1 = Inr st2 \<Longrightarrow>
   match_loop n ad p B st2 = R \<Longrightarrow> match_loop n ad p (k # A @ B) st = R"
  by (simp add: match_loop_append)

lemma match_loop_plus:
  assumes "match_node n ad p k st = Inr st1"
    and "match_loop n ad p [Suc k..<Suc k + esize a] st1 = Inr st2"
    and "match_loop n ad p [Suc (k + esize a)..<Suc (k + esize a) + esize b] st2 = R"
  shows "match_loop n ad p [k..<k + esize (Plus a b)] st = R"
  by (subst upt_plus) (rule match_loop_cons_append [OF assms])

lemma esize_pos [simp]: "0 < esize e"
  by (cases e) auto

lemma range_le: "F = plug C (tr e s) \<Longrightarrow> cpos C + esize e \<le> fsize F"
  using cpos_le [of C] by simp

lemma match_range:
  assumes "F = plug C (tr e s)" and "parent_ok (fadj 0 F) pi'" and "length sh = fsize F"
    and "\<forall>j. cpos C \<le> j \<and> j < cpos C + esize e \<longrightarrow> sh ! j = d"
    and "root_label e = ''succ'' \<longrightarrow>
           flat F ! (pi' ! cpos C) \<noteq> ''+'' \<or> int (pi' ! cpos C) = int (cpos C) - 1"
  shows "\<exists>sh'. match_loop (flat F) (fadj 0 F) pi' [cpos C..<cpos C + esize e] (script, sh)
                 = Inr (script @ scr (int (cpos C) + d) e, sh')
           \<and> length sh' = length sh
           \<and> (\<forall>j. cpos C + esize e \<le> j \<and> j < length sh \<longrightarrow>
                  sh' ! j = sh ! j + (int (esize (step e)) - int (esize e)))"
  using assms
proof (induction e arbitrary: C s script sh d rule: step.induct)
  case (1 z)
  from at_num [OF "1.prems"(1)] have "match_node (flat F) (fadj 0 F) pi' (cpos C) (script, sh) = Inr (script, sh)"
    by (rule mn_num)
  then show ?case by (simp add: upt_rec)
next
  case (2 z)
  let ?k = "cpos C"
  note at = at_succ [OF "2.prems"(1)]
  from "2.prems"(5) have g: "flat F ! (pi' ! ?k) \<noteq> ''+'' \<or> int (pi' ! ?k) = int ?k - 1" by simp
  let ?sh1 = "add_from (?k + 1) (- 1) sh"
  from at(5) have lab: "flat F ! Suc ?k = py_str z" by simp
  have m1: "match_node (flat F) (fadj 0 F) pi' ?k (script, sh)
            = Inr (script @ [Deletion (int ?k + sh ! ?k),
                             Replacement (int (Suc ?k) + ?sh1 ! Suc ?k) (py_str ((z + 1) mod 10))], ?sh1)"
    using mn_succ_num [OF at(2) g _ at(3) _ lab] at(1) at(4) by simp
  have m2: "match_node (flat F) (fadj 0 F) pi' (Suc ?k) st = Inr st" for st
    using lab by (rule mn_num)
  from "2.prems"(4) have d0: "sh ! ?k = d" and d1: "sh ! Suc ?k = d" by simp_all
  from at(4) "2.prems"(3) have "?sh1 ! Suc ?k = d - 1"
    by (simp add: nth_add_from d1)
  with m1 d0 have m1': "match_node (flat F) (fadj 0 F) pi' ?k (script, sh)
            = Inr (script @ scr (int ?k + d) (Succ (Num z)), ?sh1)"
    by simp
  have post: "\<forall>j. ?k + esize (Succ (Num z)) \<le> j \<and> j < length sh \<longrightarrow>
                ?sh1 ! j = sh ! j + (int (esize (step (Succ (Num z)))) - int (esize (Succ (Num z))))"
    by (simp add: nth_add_from)
  have "match_loop (flat F) (fadj 0 F) pi' [?k..<?k + esize (Succ (Num z))] (script, sh)
        = Inr (script @ scr (int ?k + d) (Succ (Num z)), ?sh1)"
    unfolding upt_succ using m1' m2 by (simp add: upt_rec)
  with post show ?case by (intro exI [of _ ?sh1]) simp
next
  case (3 x)
  let ?k = "cpos C" and ?D = "comp C (Down ''succ'' Hole s)"
  note at = at_succ [OF "3.prems"(1)]
  from at(5) have "flat F ! Suc ?k = ''succ''" by simp
  then have m1: "match_node (flat F) (fadj 0 F) pi' ?k (script, sh) = Inr (script, sh)"
    using mn_succ_other [OF at(2) _ at(3)] at(1) at(4) by simp
  have par: "pi' ! Suc ?k = ?k"
    using parent_okD [OF "3.prems"(2), of ?k "Suc ?k"] at(1) at(3) by simp
  have uni: "\<forall>j. cpos ?D \<le> j \<and> j < cpos ?D + esize (Succ x) \<longrightarrow> sh ! j = d"
    using "3.prems"(4) by simp
  have g: "root_label (Succ x) = ''succ'' \<longrightarrow>
           flat F ! (pi' ! cpos ?D) \<noteq> ''+'' \<or> int (pi' ! cpos ?D) = int (cpos ?D) - 1"
    using par at(2) by simp
  from "3.IH" [OF at(6) "3.prems"(2) "3.prems"(3) uni g, of script]
  obtain sh' where
    l: "match_loop (flat F) (fadj 0 F) pi' [cpos ?D..<cpos ?D + esize (Succ x)] (script, sh)
        = Inr (script @ scr (int (cpos ?D) + d) (Succ x), sh')"
    and len: "length sh' = length sh"
    and post: "\<forall>j. cpos ?D + esize (Succ x) \<le> j \<and> j < length sh \<longrightarrow>
                sh' ! j = sh ! j + (int (esize (step (Succ x))) - int (esize (Succ x)))"
    by blast
  have l': "match_loop (flat F) (fadj 0 F) pi' [Suc ?k..<Suc ?k + esize (Succ x)] (script, sh)
        = Inr (script @ scr (int ?k + d) (Succ (Succ x)), sh')"
    using l by (simp add: algebra_simps)
  have "match_loop (flat F) (fadj 0 F) pi' [?k..<?k + esize (Succ (Succ x))] (script, sh)
        = Inr (script @ scr (int ?k + d) (Succ (Succ x)), sh')"
    by (subst upt_succ) (rule match_loop_skip [OF m1 l'])
  moreover have "\<forall>j. ?k + esize (Succ (Succ x)) \<le> j \<and> j < length sh \<longrightarrow>
                sh' ! j = sh ! j + (int (esize (step (Succ (Succ x)))) - int (esize (Succ (Succ x))))"
    using post by simp
  ultimately show ?case using len by (intro exI [of _ sh']) simp
next
  case (4 a b)
  let ?k = "cpos C" and ?D = "comp C (Down ''succ'' Hole s)"
  note at = at_succ [OF "4.prems"(1)]
  from at(5) have "flat F ! Suc ?k = ''+''" by simp
  then have m1: "match_node (flat F) (fadj 0 F) pi' ?k (script, sh) = Inr (script, sh)"
    using mn_succ_other [OF at(2) _ at(3)] at(1) at(4) by simp
  have uni: "\<forall>j. cpos ?D \<le> j \<and> j < cpos ?D + esize (Plus a b) \<longrightarrow> sh ! j = d"
    using "4.prems"(4) by simp
  have g: "root_label (Plus a b) = ''succ'' \<longrightarrow>
           flat F ! (pi' ! cpos ?D) \<noteq> ''+'' \<or> int (pi' ! cpos ?D) = int (cpos ?D) - 1"
    by simp
  from "4.IH" [OF at(6) "4.prems"(2) "4.prems"(3) uni g, of script]
  obtain sh' where
    l: "match_loop (flat F) (fadj 0 F) pi' [cpos ?D..<cpos ?D + esize (Plus a b)] (script, sh)
        = Inr (script @ scr (int (cpos ?D) + d) (Plus a b), sh')"
    and len: "length sh' = length sh"
    and post: "\<forall>j. cpos ?D + esize (Plus a b) \<le> j \<and> j < length sh \<longrightarrow>
                sh' ! j = sh ! j + (int (esize (step (Plus a b))) - int (esize (Plus a b)))"
    by blast
  have l': "match_loop (flat F) (fadj 0 F) pi' [Suc ?k..<Suc ?k + esize (Plus a b)] (script, sh)
        = Inr (script @ scr (int ?k + d) (Succ (Plus a b)), sh')"
    using l by (simp add: algebra_simps)
  have "match_loop (flat F) (fadj 0 F) pi' [?k..<?k + esize (Succ (Plus a b))] (script, sh)
        = Inr (script @ scr (int ?k + d) (Succ (Plus a b)), sh')"
    by (subst upt_succ) (rule match_loop_skip [OF m1 l'])
  moreover have "\<forall>j. ?k + esize (Succ (Plus a b)) \<le> j \<and> j < length sh \<longrightarrow>
                sh' ! j = sh ! j + (int (esize (step (Succ (Plus a b)))) - int (esize (Succ (Plus a b))))"
    using post by simp
  ultimately show ?case using len by (intro exI [of _ sh']) simp
next
  case (5 a z)
  let ?k = "cpos C" and ?r = "Suc (cpos C + esize a)"
  let ?D1 = "comp C (Down ''+'' Hole s)"
  note at = at_plus [OF "5.prems"(1)]
  from at(5) have labr: "flat F ! ?r = py_str z" by simp
  have par: "pi' ! Suc ?k = ?k"
    using parent_okD [OF "5.prems"(2), of ?k "Suc ?k"] at(1) at(3) by simp
  have g: "root_label a = ''succ'' \<longrightarrow>
           flat F ! (pi' ! cpos ?D1) \<noteq> ''+'' \<or> int (pi' ! cpos ?D1) = int (cpos ?D1) - 1"
    using par by simp
  from "5.prems"(4) have d0: "sh ! ?k = d" and dr: "sh ! ?r = d" by simp_all
  from at(4) "5.prems"(3) have rlen: "?r < length sh" by simp
  have mr: "match_node (flat F) (fadj 0 F) pi' ?r st = Inr st" for st
    using labr by (rule mn_num)
  have lr: "match_loop (flat F) (fadj 0 F) pi' [?r..<?r + esize (Num z)] st = Inr st" for st
    using mr by (simp add: upt_rec)
  show ?case
  proof (cases "z = 0")
    case True
    let ?sh1 = "add_from (?r + 1) (- 1) (add_from (?k + 1) (- 1) sh)"
    let ?pre = "[Deletion (int ?k + d), Deletion (int ?k + d + int (esize a))]"
    from labr True have "flat F ! ?r = py_str 0" by simp
    from mn_plus_zero [OF at(2) _ at(3) _ this, of pi' script sh] at(1) at(4)
    have m1: "match_node (flat F) (fadj 0 F) pi' ?k (script, sh) = Inr (script @ ?pre, ?sh1)"
      using rlen d0 dr by (simp add: nth_add_from)
    have len1: "length ?sh1 = fsize F" using "5.prems"(3) by simp
    have uni: "\<forall>j. cpos ?D1 \<le> j \<and> j < cpos ?D1 + esize a \<longrightarrow> ?sh1 ! j = d - 1"
      using "5.prems"(4) rlen by (simp add: nth_add_from)
    from "5.IH"(1) [OF True at(6) "5.prems"(2) len1 uni g, of "script @ ?pre"]
    obtain sh' where
      l: "match_loop (flat F) (fadj 0 F) pi' [cpos ?D1..<cpos ?D1 + esize a] (script @ ?pre, ?sh1)
          = Inr ((script @ ?pre) @ scr (int (cpos ?D1) + (d - 1)) a, sh')"
      and len: "length sh' = length ?sh1"
      and post: "\<forall>j. cpos ?D1 + esize a \<le> j \<and> j < length ?sh1 \<longrightarrow>
                  sh' ! j = ?sh1 ! j + (int (esize (step a)) - int (esize a))"
      by blast
    have l': "match_loop (flat F) (fadj 0 F) pi' [Suc ?k..<Suc ?k + esize a] (script @ ?pre, ?sh1)
          = Inr (script @ scr (int ?k + d) (Plus a (Num z)), sh')"
      using l True by (simp add: algebra_simps)
    have "match_loop (flat F) (fadj 0 F) pi' [?k..<?k + esize (Plus a (Num z))] (script, sh)
          = Inr (script @ scr (int ?k + d) (Plus a (Num z)), sh')"
      by (rule match_loop_plus [OF m1 l' lr])
    moreover have "\<forall>j. ?k + esize (Plus a (Num z)) \<le> j \<and> j < length sh \<longrightarrow>
        sh' ! j = sh ! j + (int (esize (step (Plus a (Num z)))) - int (esize (Plus a (Num z))))"
      using post True by (simp add: nth_add_from)
    ultimately show ?thesis using len by (intro exI [of _ sh']) simp
  next
    case False
    let ?sh1 = "add_from ?r 1 sh"
    let ?pre = "[Insertion (int ?k + d) 1 ''succ'' 1,
                 Replacement (int ?k + d + int (esize a) + 2) (py_str (z - 1))]"
    from mn_plus_num [OF at(2) _ at(3) _ labr False, of pi' script sh] at(1) at(4)
    have m1: "match_node (flat F) (fadj 0 F) pi' ?k (script, sh) = Inr (script @ ?pre, ?sh1)"
      using rlen d0 dr by (simp add: nth_add_from)
    have len1: "length ?sh1 = fsize F" using "5.prems"(3) by simp
    have uni: "\<forall>j. cpos ?D1 \<le> j \<and> j < cpos ?D1 + esize a \<longrightarrow> ?sh1 ! j = d"
      using "5.prems"(4) rlen by (simp add: nth_add_from)
    from "5.IH"(2) [OF False at(6) "5.prems"(2) len1 uni g, of "script @ ?pre"]
    obtain sh' where
      l: "match_loop (flat F) (fadj 0 F) pi' [cpos ?D1..<cpos ?D1 + esize a] (script @ ?pre, ?sh1)
          = Inr ((script @ ?pre) @ scr (int (cpos ?D1) + d) a, sh')"
      and len: "length sh' = length ?sh1"
      and post: "\<forall>j. cpos ?D1 + esize a \<le> j \<and> j < length ?sh1 \<longrightarrow>
                  sh' ! j = ?sh1 ! j + (int (esize (step a)) - int (esize a))"
      by blast
    have l': "match_loop (flat F) (fadj 0 F) pi' [Suc ?k..<Suc ?k + esize a] (script @ ?pre, ?sh1)
          = Inr (script @ scr (int ?k + d) (Plus a (Num z)), sh')"
      using l False by (simp add: algebra_simps)
    have "match_loop (flat F) (fadj 0 F) pi' [?k..<?k + esize (Plus a (Num z))] (script, sh)
          = Inr (script @ scr (int ?k + d) (Plus a (Num z)), sh')"
      by (rule match_loop_plus [OF m1 l' lr])
    moreover have "\<forall>j. ?k + esize (Plus a (Num z)) \<le> j \<and> j < length sh \<longrightarrow>
        sh' ! j = sh ! j + (int (esize (step (Plus a (Num z)))) - int (esize (Plus a (Num z))))"
      using post False by (simp add: nth_add_from)
    ultimately show ?thesis using len by (intro exI [of _ sh']) simp
  qed
next
  case (6 a c)
  let ?k = "cpos C" and ?r = "Suc (cpos C + esize a)" and ?x = "Succ c"
  let ?D1 = "comp C (Down ''+'' Hole s)"
  let ?D2 = "comp C (Down ''+'' (Right (root_label a) (children a) Hole) s)"
  let ?D3 = "comp ?D2 (Down ''succ'' Hole E)"
  let ?da = "int (esize (step a)) - int (esize a)"
  let ?sh1 = "add_slice (?k + 1) (?r + 1) 1 sh"
  let ?pre = "[Insertion (int ?k + d) 0 ''succ'' 1, Deletion (int ?k + d + int (esize a) + 2)]"
  note at = at_plus [OF "6.prems"(1)]
  have c2: "cpos ?D2 = ?r" by (simp add: esize_sub [of a])
  note ats = at_succ [OF at(7), unfolded c2]
  from at(5) have labr: "flat F ! ?r = ''succ''" by simp
  have par: "pi' ! Suc ?k = ?k"
    using parent_okD [OF "6.prems"(2), of ?k "Suc ?k"] at(1) at(3) by simp
  have parr: "pi' ! ?r = ?k"
    using parent_okD [OF "6.prems"(2), of ?k ?r] at(1) at(3) by simp
  have parc: "pi' ! Suc ?r = ?r"
    using parent_okD [OF "6.prems"(2), of ?r "Suc ?r"] ats(1) ats(3) by simp
  have g: "root_label a = ''succ'' \<longrightarrow>
           flat F ! (pi' ! cpos ?D1) \<noteq> ''+'' \<or> int (pi' ! cpos ?D1) = int (cpos ?D1) - 1"
    using par by simp
  from "6.prems"(4) have d0: "sh ! ?k = d" and dr: "sh ! ?r = d" by simp_all
  from at(4) "6.prems"(3) have rlen: "?r < length sh" by simp
  from mn_plus_succ [OF at(2) _ at(3) _ labr, of pi' script sh] at(1) at(4)
  have m1: "match_node (flat F) (fadj 0 F) pi' ?k (script, sh) = Inr (script @ ?pre, ?sh1)"
    using rlen d0 dr by (simp add: nth_add_slice)
  have len1: "length ?sh1 = fsize F" using "6.prems"(3) by simp
  have uni: "\<forall>j. cpos ?D1 \<le> j \<and> j < cpos ?D1 + esize a \<longrightarrow> ?sh1 ! j = d + 1"
    using "6.prems"(4) rlen by (simp add: nth_add_slice)
  from "6.IH"(1) [OF at(6) "6.prems"(2) len1 uni g, of "script @ ?pre"]
  obtain sh2 where
    l: "match_loop (flat F) (fadj 0 F) pi' [cpos ?D1..<cpos ?D1 + esize a] (script @ ?pre, ?sh1)
        = Inr ((script @ ?pre) @ scr (int (cpos ?D1) + (d + 1)) a, sh2)"
    and len: "length sh2 = length ?sh1"
    and post: "\<forall>j. cpos ?D1 + esize a \<le> j \<and> j < length ?sh1 \<longrightarrow> sh2 ! j = ?sh1 ! j + ?da"
    by blast
  have mr: "match_node (flat F) (fadj 0 F) pi' ?r st = Inr st" for st
    using labr at(2) parr by (intro mn_blocked) simp_all
  have c3: "cpos ?D3 = Suc ?r" by (simp add: esize_sub [of a])
  have le3: "Suc ?r + esize c \<le> length sh"
    using range_le [OF ats(6)] "6.prems"(3) unfolding c3 by simp
  have len2: "length sh2 = fsize F" using len "6.prems"(3) by simp
  have uni3: "\<forall>j. cpos ?D3 \<le> j \<and> j < cpos ?D3 + esize c \<longrightarrow> sh2 ! j = d + ?da"
    unfolding c3 using post "6.prems"(4) le3 by (simp add: nth_add_slice)
  have g3: "root_label c = ''succ'' \<longrightarrow>
           flat F ! (pi' ! cpos ?D3) \<noteq> ''+'' \<or> int (pi' ! cpos ?D3) = int (cpos ?D3) - 1"
    unfolding c3 using parc labr by simp
  from "6.IH"(2) [OF ats(6) "6.prems"(2) len2 uni3 g3,
      of "(script @ ?pre) @ scr (int (cpos ?D1) + (d + 1)) a"]
  obtain sh3 where
    l3: "match_loop (flat F) (fadj 0 F) pi' [cpos ?D3..<cpos ?D3 + esize c]
           ((script @ ?pre) @ scr (int (cpos ?D1) + (d + 1)) a, sh2)
        = Inr (((script @ ?pre) @ scr (int (cpos ?D1) + (d + 1)) a)
                 @ scr (int (cpos ?D3) + (d + ?da)) c, sh3)"
    and len3: "length sh3 = length sh2"
    and post3: "\<forall>j. cpos ?D3 + esize c \<le> j \<and> j < length sh2 \<longrightarrow>
                  sh3 ! j = sh2 ! j + (int (esize (step c)) - int (esize c))"
    by blast
  have l': "match_loop (flat F) (fadj 0 F) pi' [Suc ?k..<Suc ?k + esize a] (script @ ?pre, ?sh1)
        = Inr (script @ ?pre @ scr (int ?k + d + 2) a, sh2)"
    using l by (simp add: algebra_simps)
  have l3': "match_loop (flat F) (fadj 0 F) pi' [Suc ?r..<Suc ?r + esize c]
           (script @ ?pre @ scr (int ?k + d + 2) a, sh2)
        = Inr (script @ scr (int ?k + d) (Plus a ?x), sh3)"
    using l3 unfolding c3 by (simp add: algebra_simps)
  have lx: "match_loop (flat F) (fadj 0 F) pi' [?r..<?r + esize ?x]
           (script @ ?pre @ scr (int ?k + d + 2) a, sh2)
        = Inr (script @ scr (int ?k + d) (Plus a ?x), sh3)"
    by (subst upt_succ) (rule match_loop_skip [OF mr l3'])
  have "match_loop (flat F) (fadj 0 F) pi' [?k..<?k + esize (Plus a ?x)] (script, sh)
        = Inr (script @ scr (int ?k + d) (Plus a ?x), sh3)"
    by (rule match_loop_plus [OF m1 l' lx])
  moreover have "\<forall>j. ?k + esize (Plus a ?x) \<le> j \<and> j < length sh \<longrightarrow>
      sh3 ! j = sh ! j + (int (esize (step (Plus a ?x))) - int (esize (Plus a ?x)))"
    using post post3 len unfolding c3 by (simp add: nth_add_slice)
  ultimately show ?case using len len3 by (intro exI [of _ sh3]) simp
next
  case (7 a b c)
  let ?k = "cpos C" and ?r = "Suc (cpos C + esize a)" and ?x = "Plus b c"
  let ?D1 = "comp C (Down ''+'' Hole s)"
  let ?D2 = "comp C (Down ''+'' (Right (root_label a) (children a) Hole) s)"
  let ?da = "int (esize (step a)) - int (esize a)"
  note at = at_plus [OF "7.prems"(1)]
  from at(5) have labr: "flat F ! ?r = ''+''" by simp
  have par: "pi' ! Suc ?k = ?k"
    using parent_okD [OF "7.prems"(2), of ?k "Suc ?k"] at(1) at(3) by simp
  have g: "root_label a = ''succ'' \<longrightarrow>
           flat F ! (pi' ! cpos ?D1) \<noteq> ''+'' \<or> int (pi' ! cpos ?D1) = int (cpos ?D1) - 1"
    using par by simp
  have m1: "match_node (flat F) (fadj 0 F) pi' ?k (script, sh) = Inr (script, sh)"
    using mn_plus_plus [OF at(2) _ at(3) _ labr] at(1) at(4) by simp
  have uni: "\<forall>j. cpos ?D1 \<le> j \<and> j < cpos ?D1 + esize a \<longrightarrow> sh ! j = d"
    using "7.prems"(4) by simp
  from "7.IH"(1) [OF at(6) "7.prems"(2) "7.prems"(3) uni g, of script]
  obtain sh1 where
    l: "match_loop (flat F) (fadj 0 F) pi' [cpos ?D1..<cpos ?D1 + esize a] (script, sh)
        = Inr (script @ scr (int (cpos ?D1) + d) a, sh1)"
    and len: "length sh1 = length sh"
    and post: "\<forall>j. cpos ?D1 + esize a \<le> j \<and> j < length sh \<longrightarrow> sh1 ! j = sh ! j + ?da"
    by blast
  have c2: "cpos ?D2 = ?r" by (simp add: esize_sub [of a])
  have le2: "?r + esize ?x \<le> length sh"
    using range_le [OF at(7)] "7.prems"(3) unfolding c2 by simp
  have len1: "length sh1 = fsize F" using len "7.prems"(3) by simp
  have uni2: "\<forall>j. cpos ?D2 \<le> j \<and> j < cpos ?D2 + esize ?x \<longrightarrow> sh1 ! j = d + ?da"
    unfolding c2 using post "7.prems"(4) le2 by simp
  have g2: "root_label ?x = ''succ'' \<longrightarrow>
           flat F ! (pi' ! cpos ?D2) \<noteq> ''+'' \<or> int (pi' ! cpos ?D2) = int (cpos ?D2) - 1"
    by simp
  from "7.IH"(2) [OF at(7) "7.prems"(2) len1 uni2 g2, of "script @ scr (int (cpos ?D1) + d) a"]
  obtain sh2 where
    l2: "match_loop (flat F) (fadj 0 F) pi' [cpos ?D2..<cpos ?D2 + esize ?x]
           (script @ scr (int (cpos ?D1) + d) a, sh1)
        = Inr ((script @ scr (int (cpos ?D1) + d) a) @ scr (int (cpos ?D2) + (d + ?da)) ?x, sh2)"
    and len2: "length sh2 = length sh1"
    and post2: "\<forall>j. cpos ?D2 + esize ?x \<le> j \<and> j < length sh1 \<longrightarrow>
                  sh2 ! j = sh1 ! j + (int (esize (step ?x)) - int (esize ?x))"
    by blast
  have l': "match_loop (flat F) (fadj 0 F) pi' [Suc ?k..<Suc ?k + esize a] (script, sh)
        = Inr (script @ scr (int ?k + d + 1) a, sh1)"
    using l by (simp add: algebra_simps)
  have l2': "match_loop (flat F) (fadj 0 F) pi' [?r..<?r + esize ?x] (script @ scr (int ?k + d + 1) a, sh1)
        = Inr (script @ scr (int ?k + d) (Plus a ?x), sh2)"
    using l2 unfolding c2 by (simp add: algebra_simps)
  have "match_loop (flat F) (fadj 0 F) pi' [?k..<?k + esize (Plus a ?x)] (script, sh)
        = Inr (script @ scr (int ?k + d) (Plus a ?x), sh2)"
    by (rule match_loop_plus [OF m1 l' l2'])
  moreover have "\<forall>j. ?k + esize (Plus a ?x) \<le> j \<and> j < length sh \<longrightarrow>
      sh2 ! j = sh ! j + (int (esize (step (Plus a ?x))) - int (esize (Plus a ?x)))"
    using post post2 len unfolding c2 by simp
  ultimately show ?case using len len2 by (intro exI [of _ sh2]) simp
qed

lemma mn_root: "nodes ! k = ''root'' \<Longrightarrow> match_node nodes adj pi' k st = Inr st"
  by (simp add: match_node_def)

lemma matcher_tree_of: "matcher (tree_of e) = Inr (scr 1 e)"
proof -
  let ?C = "Down ''root'' Hole E"
  let ?F = "T ''root'' (tr e E) E"
  have F: "?F = plug ?C (tr e E)" by simp
  have n: "fsize ?F = Suc (esize e)" by simp
  from parents_enc [of ?F] obtain pi' where
    p: "parents (flat ?F) (fadj 0 ?F) = Inr pi'" and ok: "parent_ok (fadj 0 ?F) pi'"
    by blast
  let ?sh = "replicate (fsize ?F) (0::int)"
  have row0: "fadj 0 ?F ! 0 = [1]" by (simp add: kids_tr)
  have par: "pi' ! 1 = 0"
    using parent_okD [OF ok, of 0 1] row0 by simp
  have len: "length ?sh = fsize ?F" by simp
  have uni: "\<forall>j. cpos ?C \<le> j \<and> j < cpos ?C + esize e \<longrightarrow> ?sh ! j = 0"
  proof (intro allI impI)
    fix j assume "cpos ?C \<le> j \<and> j < cpos ?C + esize e"
    then have "j < fsize ?F" by simp
    then show "?sh ! j = 0" by (simp only: nth_replicate)
  qed
  have g: "root_label e = ''succ'' \<longrightarrow>
           flat ?F ! (pi' ! cpos ?C) \<noteq> ''+'' \<or> int (pi' ! cpos ?C) = int (cpos ?C) - 1"
    using par by simp
  from match_range [OF F ok len uni g, of "[]"] obtain sh' where
    l: "match_loop (flat ?F) (fadj 0 ?F) pi' [cpos ?C..<cpos ?C + esize e] ([], ?sh)
        = Inr ([] @ scr (int (cpos ?C) + 0) e, sh')"
    by blast
  have l': "match_loop (flat ?F) (fadj 0 ?F) pi' [Suc 0..<Suc 0 + esize e] ([], ?sh)
        = Inr (scr 1 e, sh')"
    using l by simp
  have m0: "match_node (flat ?F) (fadj 0 ?F) pi' 0 ([], ?sh) = Inr ([], ?sh)"
    by (rule mn_root) simp
  have "[0..<length (flat ?F)] = 0 # [Suc 0..<Suc 0 + esize e]"
    using upt_node [of 0 "esize e"] by simp
  then have "match_loop (flat ?F) (fadj 0 ?F) pi' [0..<length (flat ?F)] ([], ?sh) = Inr (scr 1 e, sh')"
    using match_loop_skip [OF m0 l'] by simp
  then show ?thesis
    using p by (simp add: matcher_def tree_of_def enc_def)
qed

lemma apply_scr_tree_of: "apply_script (scr 1 e) (tree_of e) = Inr (tree_of (step e))"
  using apply_scr [of "Down ''root'' Hole E" e E] by (simp add: tree_of_def)

lemma scr_nonempty: "(scr q e = []) = (\<exists>z. e = Num z)"
  by (induction q e rule: scr.induct) auto

lemma simplify_loop_tree_of:
  "simplify_loop (tree_of e) ts
     = (if \<exists>z. e = Num z then Some (Inr ts)
        else simplify_loop (tree_of (step e)) (ts @ [tree_of (step e)]))"
  by (subst simplify_loop.simps) (simp add: matcher_tree_of apply_scr_tree_of scr_nonempty)

section \<open>Termination of the rewrite loop\<close>

lemma nonneg_step: "nonneg e \<Longrightarrow> nonneg (step e)"
  by (induction e rule: step.induct) auto

lemma weight_plus: "weight k (Plus a b) = 1 + weight k a + wright (k + 3) b"
  by (cases b) auto

lemma wright_le: "wright r e \<le> weight r e"
  by (cases e) auto

lemma weight_step:
  "nonneg e \<Longrightarrow> weight k (step e) \<le> weight k e \<and> (\<not> reduced e \<longrightarrow> weight k (step e) < weight k e)"
proof (induction e arbitrary: k rule: step.induct)
  case (1 z)
  then show ?case by simp
next
  case (2 z)
  then have "nat ((z + 1) mod 10) \<le> nat z + 1" using zmod_le_nonneg_dividend [of "z + 1" 10] by simp
  then have "k * nat ((z + 1) mod 10) \<le> k * (nat z + 1)" by (rule mult_le_mono2)
  then show ?case by simp
next
  case (3 e)
  then show ?case by simp
next
  case (4 a b)
  from "4.IH" [of k] "4.prems" show ?case by simp
next
  case (5 a z)
  show ?case
  proof (cases "z = 0")
    case True
    with "5.IH"(1) [of k] "5.prems" show ?thesis by simp
  next
    case False
    with "5.prems" have "nat z = Suc (nat (z - 1))" by auto
    with False "5.IH"(2) [of k] "5.prems" show ?thesis by simp
  qed
next
  case (6 a c)
  from "6.IH"(1) [of k] "6.IH"(2) [of "k + 3"] "6.prems" wright_le [of "k + 3" "step c"]
  show ?case by (simp add: weight_plus)
next
  case (7 a b c)
  let ?x = "Plus b c"
  have new: "weight k (step (Plus a ?x)) = 1 + weight k (step a) + wright (k + 3) (step ?x)"
    by (simp only: step.simps weight_plus)
  have old: "weight k (Plus a ?x) = 1 + weight k a + weight (k + 3) ?x"
    by simp
  from "7.prems" have na: "nonneg a" and nx: "nonneg ?x" by simp_all
  from "7.IH"(1) [OF na, of k] have a: "weight k (step a) \<le> weight k a" by blast
  from "7.IH"(2) [OF nx, of "k + 3"] have "weight (k + 3) (step ?x) < weight (k + 3) ?x" by simp
  with wright_le [of "k + 3" "step ?x"] have "wright (k + 3) (step ?x) < weight (k + 3) ?x"
    by simp
  with a new old show ?case by simp
qed

lemma reduced_iff: "reduced e = (\<exists>z. e = Num z)"
  by (cases e) auto

lemma funpow_trace:
  "map (\<lambda>i. tree_of ((step ^^ i) e)) [1..<Suc (Suc m)]
     = tree_of (step e) # map (\<lambda>i. tree_of ((step ^^ i) (step e))) [1..<Suc m]"
proof -
  have "[1..<Suc (Suc m)] = 1 # map Suc [1..<Suc m]"
    by (simp add: map_Suc_upt upt_conv_Cons del: upt_Suc)
  then show ?thesis by (simp add: funpow_swap1 comp_def del: upt_Suc)
qed

lemma simplify_loop_run:
  "nonneg e \<Longrightarrow>
     \<exists>m v. m \<le> weight 0 e \<and> (step ^^ m) e = Num v \<and> 0 \<le> v
         \<and> simplify_loop (tree_of e) ts
             = Some (Inr (ts @ map (\<lambda>i. tree_of ((step ^^ i) e)) [1..<Suc m]))"
proof (induction "weight 0 e" arbitrary: e ts rule: less_induct)
  case less
  show ?case
  proof (cases "reduced e")
    case True
    then obtain z where z: "e = Num z" by (auto simp: reduced_iff)
    with less.prems have "0 \<le> z" by simp
    moreover have "simplify_loop (tree_of e) ts = Some (Inr ts)"
      using z by (subst simplify_loop_tree_of) simp
    ultimately show ?thesis using z by (intro exI [of _ 0] exI [of _ z]) simp
  next
    case False
    with weight_step [OF less.prems, of 0] have lt: "weight 0 (step e) < weight 0 e" by simp
    from less.hyps [OF lt nonneg_step [OF less.prems], of "ts @ [tree_of (step e)]"]
    obtain m v where m: "m \<le> weight 0 (step e)" and v: "(step ^^ m) (step e) = Num v" "0 \<le> v"
      and r: "simplify_loop (tree_of (step e)) (ts @ [tree_of (step e)])
              = Some (Inr ((ts @ [tree_of (step e)])
                            @ map (\<lambda>i. tree_of ((step ^^ i) (step e))) [1..<Suc m]))"
      by blast
    from False have "simplify_loop (tree_of e) ts
                     = simplify_loop (tree_of (step e)) (ts @ [tree_of (step e)])"
      by (subst simplify_loop_tree_of) (simp add: reduced_iff)
    with r have "simplify_loop (tree_of e) ts
                 = Some (Inr (ts @ map (\<lambda>i. tree_of ((step ^^ i) e)) [1..<Suc (Suc m)]))"
      by (simp only: funpow_trace append_assoc append_Cons append_Nil)
    moreover have "(step ^^ Suc m) e = Num v" using v(1) by (simp add: funpow_swap1)
    moreover have "Suc m \<le> weight 0 e" using m lt by simp
    ultimately show ?thesis using v(2) by blast
  qed
qed

lemma tree_of_Num: "tree_of (Num v) = ([''root'', py_str v], [[1], []])"
  by (simp add: tree_of_def enc_def)

lemma reach_expr: "reach (tree_of e) u \<Longrightarrow> \<exists>e'. u = tree_of e'"
proof (induction rule: reach.induct)
  case start
  then show ?case by blast
next
  case (pass u s u')
  then obtain e' where "u = tree_of e'" by blast
  with pass.hyps have "u' = tree_of (step e')"
    by (auto simp: matcher_tree_of apply_scr_tree_of)
  then show ?case by blast
qed

lemma diverging_step: "diverging e \<Longrightarrow> diverging (step e) \<and> \<not> reduced e"
  by (induction e rule: diverging.induct) auto

lemma simplify_loop_diverges: "simplify_loop t ts = Some r \<Longrightarrow> \<forall>e. diverging e \<longrightarrow> t \<noteq> tree_of e"
proof (rule simplify_loop.raw_induct [where P = "\<lambda>t ts r. \<forall>e. diverging e \<longrightarrow> t \<noteq> tree_of e"])
  fix f t ts r
  assume ih: "\<And>t ts r. f t ts = Some r \<Longrightarrow> \<forall>e. diverging e \<longrightarrow> t \<noteq> tree_of e"
    and b: "(case matcher t of
        Inl e \<Rightarrow> Some (Inl e)
      | Inr script \<Rightarrow>
          if length script = 0 then Some (Inr ts)
          else (case apply_script script t of
                  Inl e \<Rightarrow> Some (Inl e)
                | Inr t' \<Rightarrow> f t' (ts @ [t']))) = Some r"
  show "\<forall>e. diverging e \<longrightarrow> t \<noteq> tree_of e"
  proof (intro allI impI notI)
    fix e assume d: "diverging e" and t: "t = tree_of e"
    from diverging_step [OF d] have d': "diverging (step e)" and n: "\<not> reduced e" by simp_all
    from b t n have "f (tree_of (step e)) (ts @ [tree_of (step e)]) = Some r"
      by (simp add: matcher_tree_of apply_scr_tree_of scr_nonempty reduced_iff)
    from ih [OF this] d' show False by blast
  qed
qed

lemma simplify_loop_exit:
  "simplify_loop t ts = Some r \<Longrightarrow> ts \<noteq> [] \<and> last ts = t \<longrightarrow>
     (\<forall>out. r = Inr out \<longrightarrow> out \<noteq> [] \<and> hd out = hd ts \<and> matcher (last out) = Inr [])"
proof (rule simplify_loop.raw_induct [where P = "\<lambda>t ts r. ts \<noteq> [] \<and> last ts = t \<longrightarrow>
     (\<forall>out. r = Inr out \<longrightarrow> out \<noteq> [] \<and> hd out = hd ts \<and> matcher (last out) = Inr [])"])
  fix f t ts r
  assume ih: "\<And>t ts r. f t ts = Some r \<Longrightarrow> ts \<noteq> [] \<and> last ts = t \<longrightarrow>
     (\<forall>out. r = Inr out \<longrightarrow> out \<noteq> [] \<and> hd out = hd ts \<and> matcher (last out) = Inr [])"
    and b: "(case matcher t of
        Inl e \<Rightarrow> Some (Inl e)
      | Inr script \<Rightarrow>
          if length script = 0 then Some (Inr ts)
          else (case apply_script script t of
                  Inl e \<Rightarrow> Some (Inl e)
                | Inr t' \<Rightarrow> f t' (ts @ [t']))) = Some r"
  show "ts \<noteq> [] \<and> last ts = t \<longrightarrow>
     (\<forall>out. r = Inr out \<longrightarrow> out \<noteq> [] \<and> hd out = hd ts \<and> matcher (last out) = Inr [])"
  proof (intro impI allI)
    fix out assume a: "ts \<noteq> [] \<and> last ts = t" and r: "r = Inr out"
    show "out \<noteq> [] \<and> hd out = hd ts \<and> matcher (last out) = Inr []"
    proof (cases "matcher t")
      case (Inl e)
      with b r show ?thesis by simp
    next
      case (Inr script)
      show ?thesis
      proof (cases "script = []")
        case True
        with b r Inr a show ?thesis by auto
      next
        case False
        show ?thesis
        proof (cases "apply_script script t")
          case (Inl e)
          with b r Inr False show ?thesis by simp
        next
          case u: (Inr t')
          with b Inr False have "f t' (ts @ [t']) = Some r" by simp
          from ih [OF this] r a show ?thesis by simp
        qed
      qed
    qed
  qed
qed (assumption)

section \<open>Termination, scripts and exit of the rewrite loop\<close>

text \<open>
  C1, amended. For an expression \<open>e\<close> whose numerals are not negative, \<open>_simplify\<close> on the
  tree of \<open>e\<close> returns a trace: it starts with the input, it has at most \<open>weight 0 e\<close>
  trees after the input, and its last tree is \<open>root\<close> above a single numeral.
\<close>

theorem simplify_terminates:
  assumes "nonneg e"
  shows "\<exists>ts v. simplify (tree_of e) = Some (Inr ts) \<and> hd ts = tree_of e
           \<and> length ts \<le> Suc (weight 0 e)
           \<and> 0 \<le> v \<and> last ts = ([''root'', py_str v], [[1], []])"
proof -
  let ?f = "\<lambda>i. tree_of ((step ^^ i) e)"
  from simplify_loop_run [OF assms, of "[tree_of e]"]
  obtain m v where m: "m \<le> weight 0 e" and v: "(step ^^ m) e = Num v" "0 \<le> v"
    and r: "simplify_loop (tree_of e) [tree_of e] = Some (Inr ([tree_of e] @ map ?f [1..<Suc m]))"
    by blast
  have "[0..<Suc m] = 0 # [1..<Suc m]" by (simp add: upt_conv_Cons del: upt_Suc)
  then have t: "[tree_of e] @ map ?f [1..<Suc m] = map ?f [0..<Suc m]" by (simp del: upt_Suc)
  have "last (map ?f [0..<Suc m]) = ?f m" by (simp add: last_map)
  with v have l: "last (map ?f [0..<Suc m]) = ([''root'', py_str v], [[1], []])"
    by (simp add: tree_of_Num)
  have h: "hd (map ?f [0..<Suc m]) = tree_of e" by (simp add: hd_map upt_conv_Cons del: upt_Suc)
  have n: "length (map ?f [0..<Suc m]) \<le> Suc (weight 0 e)" using m by simp
  from r t have "simplify (tree_of e) = Some (Inr (map ?f [0..<Suc m]))"
    by (simp only: simplify_def)
  with h n l v(2) show ?thesis by blast
qed

theorem simplify_terminates_witness:
  "nonneg (Plus (Num 2) (Succ (Num 0)))
   \<and> (\<exists>ts v. simplify (tree_of (Plus (Num 2) (Succ (Num 0)))) = Some (Inr ts)
         \<and> hd ts = tree_of (Plus (Num 2) (Succ (Num 0)))
         \<and> length ts \<le> Suc (weight 0 (Plus (Num 2) (Succ (Num 0))))
         \<and> 0 \<le> v \<and> last ts = ([''root'', py_str v], [[1], []]))"
  using simplify_terminates [of "Plus (Num 2) (Succ (Num 0))"] by simp

text \<open>
  C1 as stated fails in its bound: \<open>root \<rightarrow> +(1, 1)\<close> has one operator and the largest
  numeral 1, and its trace has three trees after the input.
\<close>

theorem simplify_bound_counterexample:
  "simplify ([''root'', ''+'', ''1'', ''1''], [[1], [2, 3], [], []])
     = Some (Inr [([''root'', ''+'', ''1'', ''1''], [[1], [2, 3], [], []]),
                  ([''root'', ''+'', ''1'', ''succ'', ''0''], [[1], [2, 3], [], [4], []]),
                  ([''root'', ''+'', ''succ'', ''1'', ''0''], [[1], [2, 4], [3], [], []]),
                  ([''root'', ''2''], [[1], []])])
   \<and> tree_of (Plus (Num 1) (Num 1)) = ([''root'', ''+'', ''1'', ''1''], [[1], [2, 3], [], []])
   \<and> int (operators (Plus (Num 1) (Num 1))) + max_numeral (Plus (Num 1) (Num 1)) = 2"
  by code_simp

text \<open>
  C4. From the tree of an expression, every tree that a run of \<open>_simplify\<close> reaches has a
  script that the pass emits without error, and applying that script to the tree gives a
  tree and no error.
\<close>

theorem script_applies:
  assumes "reach (tree_of e) u"
  shows "\<exists>s u'. matcher u = Inr s \<and> apply_script s u = Inr u'"
proof -
  from reach_expr [OF assms] obtain e' where "u = tree_of e'" by blast
  then show ?thesis by (simp add: matcher_tree_of apply_scr_tree_of)
qed

theorem script_applies_witness:
  "reach (tree_of (Plus (Num 1) (Num 1))) (tree_of (step (Plus (Num 1) (Num 1))))
   \<and> (\<exists>s u'. matcher (tree_of (step (Plus (Num 1) (Num 1)))) = Inr s
         \<and> apply_script s (tree_of (step (Plus (Num 1) (Num 1)))) = Inr u')"
proof -
  have "scr 1 (Plus (Num 1) (Num 1)) \<noteq> []" by simp
  from reach.pass [OF reach.start matcher_tree_of this apply_scr_tree_of]
  have r: "reach (tree_of (Plus (Num 1) (Num 1))) (tree_of (step (Plus (Num 1) (Num 1))))" .
  from script_applies [OF r] r show ?thesis by blast
qed

text \<open>
  C7, amended. \<open>_simplify\<close> has no step cap and no \<open>NonTerminating\<close> error: when it returns
  a trace, the trace starts with the input and the pass on its last tree emits the empty
  script, which is the only exit of the loop.
\<close>

theorem simplify_exit:
  assumes "simplify t = Some (Inr ts)"
  shows "ts \<noteq> [] \<and> hd ts = t \<and> matcher (last ts) = Inr []"
  using simplify_loop_exit [of t "[t]" "Inr ts"] assms by (simp add: simplify_def)

theorem simplify_exit_witness:
  "simplify ([''root'', ''+'', ''2'', ''0''], [[1], [2, 3], [], []])
     = Some (Inr [([''root'', ''+'', ''2'', ''0''], [[1], [2, 3], [], []]),
                  ([''root'', ''2''], [[1], []])])
   \<and> matcher (last [([''root'', ''+'', ''2'', ''0''], [[1], [2, 3], [], []]),
                     ([''root'', ''2''], [[1], []])]) = Inr []"
proof -
  have s: "simplify ([''root'', ''+'', ''2'', ''0''], [[1], [2, 3], [], []])
     = Some (Inr [([''root'', ''+'', ''2'', ''0''], [[1], [2, 3], [], []]),
                  ([''root'', ''2''], [[1], []])])"
    by code_simp
  from simplify_exit [OF s] s show ?thesis by blast
qed

text \<open>
  C7 as stated fails: on \<open>root \<rightarrow> +(1, -1)\<close>, whose right operand is outside the alphabet,
  every pass rewrites the tree and \<open>_simplify\<close> never returns; no error is raised.
\<close>

theorem simplify_diverges_counterexample:
  "simplify ([''root'', ''+'', ''1'', ''-1''], [[1], [2, 3], [], []]) = None"
proof -
  let ?e = "Plus (Num 1) (Num (- 1))"
  have t: "([''root'', ''+'', ''1'', ''-1''], [[1], [2, 3], [], []]) = tree_of ?e"
    by code_simp
  have d: "diverging ?e" by simp
  have "simplify_loop (tree_of ?e) [tree_of ?e] = None"
  proof (cases "simplify_loop (tree_of ?e) [tree_of ?e]")
    case None
    then show ?thesis .
  next
    case (Some r)
    from simplify_loop_diverges [OF Some] d show ?thesis by blast
  qed
  then show ?thesis unfolding t simplify_def .
qed

section \<open>The first loop of the alignment on an encoded expression\<close>

lemma length_lmap [simp]: "length (lmap q e) = esize e"
  by (induction q e rule: lmap.induct) auto

lemma amap_Nil [simp]: "amap k [] m = m"
  by (rule ext) (auto simp: amap_def)

lemma amap_Cons: "amap k (x # L) m = amap (Suc k) L (m(k \<mapsto> x))"
proof (rule ext)
  fix j
  show "amap k (x # L) m j = amap (Suc k) L (m(k \<mapsto> x)) j"
  proof (cases "Suc k \<le> j")
    case True
    then have "j - k = Suc (j - Suc k)" by simp
    with True show ?thesis by (simp add: amap_def)
  next
    case False
    then show ?thesis by (auto simp: amap_def)
  qed
qed

lemma amap_append: "amap k (L1 @ L2) m = amap (k + length L1) L2 (amap k L1 m)"
  by (rule ext) (auto simp: amap_def nth_append)

lemma amap_upd_out:
  "j < k \<or> k + length L \<le> j \<Longrightarrow> (amap k L m)(j \<mapsto> x) = amap k L (m(j \<mapsto> x))"
  by (rule ext) (auto simp: amap_def)

lemma amap_out: "j < k \<or> k + length L \<le> j \<Longrightarrow> amap k L m j = m j"
  by (auto simp: amap_def)

lemma align_loop_append:
  "align_loop nodes adj pi' (xs @ ys) st
     = ebind (align_loop nodes adj pi' xs st) (align_loop nodes adj pi' ys)"
proof (induction xs arbitrary: st)
  case Nil
  then show ?case by simp
next
  case (Cons x xs)
  then show ?case by (cases "align_node nodes adj pi' x st") simp_all
qed

lemma align_loop_cons:
  "align_node n ad p k st = Inr st1 \<Longrightarrow> align_loop n ad p ks st1 = R
   \<Longrightarrow> align_loop n ad p (k # ks) st = R"
  by simp

lemma align_loop_cons_append:
  "align_node n ad p k st = Inr st1 \<Longrightarrow> align_loop n ad p A st1 = Inr st2 \<Longrightarrow>
   align_loop n ad p B st2 = R \<Longrightarrow> align_loop n ad p (k # A @ B) st = R"
  by (simp add: align_loop_append)

lemma align_loop_plus:
  assumes "align_node n ad p k st = Inr st1"
    and "align_loop n ad p [Suc k..<Suc k + esize a] st1 = Inr st2"
    and "align_loop n ad p [Suc (k + esize a)..<Suc (k + esize a) + esize b] st2 = R"
  shows "align_loop n ad p [k..<k + esize (Plus a b)] st = R"
  by (subst upt_plus) (rule align_loop_cons_append [OF assms])

lemma an_num:
  "nodes ! k = py_str z \<Longrightarrow> m k = None \<Longrightarrow>
     align_node nodes adj pi' k (sh, m) = Inr (sh, m(k \<mapsto> int k + sh ! k))"
  by (simp add: align_node_def align_record_def)

lemma an_root:
  "nodes ! k = ''root'' \<Longrightarrow> m k = None \<Longrightarrow>
     align_node nodes adj pi' k (sh, m) = Inr (sh, m(k \<mapsto> int k + sh ! k))"
  by (simp add: align_node_def align_record_def)

lemma an_kept:
  "nodes ! k = py_str z \<Longrightarrow> m k = Some v \<Longrightarrow> align_node nodes adj pi' k (sh, m) = Inr (sh, m)"
  by (simp add: align_node_def align_record_def)

lemma an_blocked:
  "nodes ! k = ''succ'' \<Longrightarrow> nodes ! (pi' ! k) = ''+'' \<Longrightarrow> int (pi' ! k) \<noteq> int k - 1 \<Longrightarrow>
     m k = Some v \<Longrightarrow> align_node nodes adj pi' k (sh, m) = Inr (sh, m)"
  by (simp add: align_node_def align_record_def)

lemma an_succ_num:
  assumes "nodes ! k = ''succ''" and "nodes ! (pi' ! k) \<noteq> ''+'' \<or> int (pi' ! k) = int k - 1"
    and "k < length adj" and "adj ! k = [c]" and "c < length nodes" and "nodes ! c = py_str z"
  shows "align_node nodes adj pi' k (sh, m) = Inr (add_from k (- 1) sh, m(k \<mapsto> - 1))"
  using assms by (auto simp: align_node_def align_succ_def align_record_def)

lemma an_succ_other:
  assumes "nodes ! k = ''succ''" and "k < length adj" and "adj ! k = [c]" and "c < length nodes"
    and "nodes ! c = ''succ'' \<or> nodes ! c = ''+''" and "m k = None"
  shows "align_node nodes adj pi' k (sh, m) = Inr (sh, m(k \<mapsto> int k + sh ! k))"
  using assms by (auto simp: align_node_def align_succ_def align_record_def)

lemma an_plus_zero:
  assumes "nodes ! k = ''+''" and "k < length adj" and "adj ! k = [l, r]" and "r < length nodes"
    and "nodes ! r = py_str 0"
  shows "align_node nodes adj pi' k (sh, m)
         = Inr (add_from (r + 1) (- 1) (add_from k (- 1) sh), m(k \<mapsto> - 1, r \<mapsto> - 1))"
  using assms by (simp add: align_node_def align_plus_def align_record_def Let_def)

lemma an_plus_succ:
  assumes "nodes ! k = ''+''" and "k < length adj" and "adj ! k = [l, r]" and "r < length nodes"
    and "nodes ! r = ''succ''" and "m k = None" and "k < r" and "k < length sh"
  shows "align_node nodes adj pi' k (sh, m)
         = Inr (add_slice (k + 1) (r + 1) 1 sh, m(r \<mapsto> - 1, k \<mapsto> int k + sh ! k))"
  using assms by (simp add: align_node_def align_plus_def align_record_def Let_def nth_add_slice)

lemma an_plus_num:
  assumes "nodes ! k = ''+''" and "k < length adj" and "adj ! k = [l, r]" and "r < length nodes"
    and "nodes ! r = py_str z" and "z \<noteq> 0" and "m k = None" and "k < r" and "k < length sh"
  shows "align_node nodes adj pi' k (sh, m)
         = Inr (add_from r 1 sh, m(k \<mapsto> int k + sh ! k))"
  using assms by (simp add: align_node_def align_plus_def align_record_def Let_def nth_add_from)

lemma an_plus_plus:
  assumes "nodes ! k = ''+''" and "k < length adj" and "adj ! k = [l, r]" and "r < length nodes"
    and "nodes ! r = ''+''" and "m k = None"
  shows "align_node nodes adj pi' k (sh, m) = Inr (sh, m(k \<mapsto> int k + sh ! k))"
  using assms by (simp add: align_node_def align_plus_def align_record_def)

lemma align_range:
  assumes "F = plug C (tr e s)" and "parent_ok (fadj 0 F) pi'" and "length sh = fsize F"
    and "\<forall>j. cpos C \<le> j \<and> j < cpos C + esize e \<longrightarrow> sh ! j = d"
    and "root_label e = ''succ'' \<longrightarrow>
           flat F ! (pi' ! cpos C) \<noteq> ''+'' \<or> int (pi' ! cpos C) = int (cpos C) - 1"
    and "\<forall>j. cpos C \<le> j \<and> j < cpos C + esize e \<longrightarrow> m j = None"
  shows "\<exists>sh'. align_loop (flat F) (fadj 0 F) pi' [cpos C..<cpos C + esize e] (sh, m)
                 = Inr (sh', amap (cpos C) (lmap (int (cpos C) + d) e) m)
           \<and> length sh' = length sh
           \<and> (\<forall>j. cpos C + esize e \<le> j \<and> j < length sh \<longrightarrow>
                  sh' ! j = sh ! j + (int (esize (step e)) - int (esize e)))"
  using assms
proof (induction e arbitrary: C s m sh d rule: step.induct)
  case (1 z)
  let ?k = "cpos C"
  from "1.prems"(6) have "m ?k = None" by simp
  from an_num [where m = m, OF at_num [OF "1.prems"(1)] this]
  have "align_node (flat F) (fadj 0 F) pi' ?k (sh, m) = Inr (sh, m(?k \<mapsto> int ?k + sh ! ?k))" .
  moreover from "1.prems"(4) have "sh ! ?k = d" by simp
  moreover have "[?k..<?k + esize (Num z)] = [?k]" by (simp add: upt_rec)
  moreover have "amap ?k (lmap (int ?k + d) (Num z)) m = m(?k \<mapsto> int ?k + d)"
    by (simp add: amap_Cons)
  ultimately have "align_loop (flat F) (fadj 0 F) pi' [?k..<?k + esize (Num z)] (sh, m)
                   = Inr (sh, amap ?k (lmap (int ?k + d) (Num z)) m)"
    by simp
  then show ?case by (intro exI [of _ sh]) simp
next
  case (2 z)
  let ?k = "cpos C"
  note at = at_succ [OF "2.prems"(1)]
  from "2.prems"(5) have g: "flat F ! (pi' ! ?k) \<noteq> ''+'' \<or> int (pi' ! ?k) = int ?k - 1" by simp
  let ?sh1 = "add_from ?k (- 1) sh"
  from at(5) have lab: "flat F ! Suc ?k = py_str z" by simp
  have m1: "align_node (flat F) (fadj 0 F) pi' ?k (sh, m) = Inr (?sh1, m(?k \<mapsto> - 1))"
    using an_succ_num [OF at(2) g _ at(3) _ lab] at(1) at(4) by simp
  from "2.prems"(6) have "(m(?k \<mapsto> - 1)) (Suc ?k) = None" by simp
  from an_num [where m = "m(?k \<mapsto> - 1)", OF lab this]
  have m2: "align_node (flat F) (fadj 0 F) pi' (Suc ?k) (?sh1, m(?k \<mapsto> - 1))
            = Inr (?sh1, m(?k \<mapsto> - 1, Suc ?k \<mapsto> int (Suc ?k) + ?sh1 ! Suc ?k))" .
  from "2.prems"(4) have d1: "sh ! Suc ?k = d" by simp
  from at(4) "2.prems"(3) have "?sh1 ! Suc ?k = d - 1"
    by (simp add: nth_add_from d1)
  with m2 have m2': "align_node (flat F) (fadj 0 F) pi' (Suc ?k) (?sh1, m(?k \<mapsto> - 1))
            = Inr (?sh1, amap ?k (lmap (int ?k + d) (Succ (Num z))) m)"
    by (simp add: amap_Cons)
  have post: "\<forall>j. ?k + esize (Succ (Num z)) \<le> j \<and> j < length sh \<longrightarrow>
                ?sh1 ! j = sh ! j + (int (esize (step (Succ (Num z)))) - int (esize (Succ (Num z))))"
    by (simp add: nth_add_from)
  have "align_loop (flat F) (fadj 0 F) pi' [?k..<?k + esize (Succ (Num z))] (sh, m)
        = Inr (?sh1, amap ?k (lmap (int ?k + d) (Succ (Num z))) m)"
    unfolding upt_succ using m1 m2' by (simp add: upt_rec)
  with post show ?case by (intro exI [of _ ?sh1]) simp
next
  case (3 x)
  let ?k = "cpos C" and ?D = "comp C (Down ''succ'' Hole s)"
  let ?m1 = "m(?k \<mapsto> int ?k + d)"
  note at = at_succ [OF "3.prems"(1)]
  from "3.prems"(4) have d0: "sh ! ?k = d" by simp
  from "3.prems"(6) have mk: "m ?k = None" by simp
  from at(5) have "flat F ! Suc ?k = ''succ'' \<or> flat F ! Suc ?k = ''+''" by simp
  from an_succ_other [where m = m and pi' = pi' and sh = sh, OF at(2) _ at(3) _ this mk] at(1) at(4)
  have m1: "align_node (flat F) (fadj 0 F) pi' ?k (sh, m) = Inr (sh, ?m1)"
    by (simp add: d0)
  have par: "pi' ! Suc ?k = ?k"
    using parent_okD [OF "3.prems"(2), of ?k "Suc ?k"] at(1) at(3) by simp
  have uni: "\<forall>j. cpos ?D \<le> j \<and> j < cpos ?D + esize (Succ x) \<longrightarrow> sh ! j = d"
    using "3.prems"(4) by simp
  have g: "root_label (Succ x) = ''succ'' \<longrightarrow>
           flat F ! (pi' ! cpos ?D) \<noteq> ''+'' \<or> int (pi' ! cpos ?D) = int (cpos ?D) - 1"
    using par at(2) by simp
  have non: "\<forall>j. cpos ?D \<le> j \<and> j < cpos ?D + esize (Succ x) \<longrightarrow> ?m1 j = None"
    using "3.prems"(6) by simp
  from "3.IH" [OF at(6) "3.prems"(2) "3.prems"(3) uni g non]
  obtain sh' where
    l: "align_loop (flat F) (fadj 0 F) pi' [cpos ?D..<cpos ?D + esize (Succ x)] (sh, ?m1)
        = Inr (sh', amap (cpos ?D) (lmap (int (cpos ?D) + d) (Succ x)) ?m1)"
    and len: "length sh' = length sh"
    and post: "\<forall>j. cpos ?D + esize (Succ x) \<le> j \<and> j < length sh \<longrightarrow>
                sh' ! j = sh ! j + (int (esize (step (Succ x))) - int (esize (Succ x)))"
    by blast
  have l': "align_loop (flat F) (fadj 0 F) pi' [Suc ?k..<Suc ?k + esize (Succ x)] (sh, ?m1)
        = Inr (sh', amap ?k (lmap (int ?k + d) (Succ (Succ x))) m)"
    using l by (simp add: algebra_simps amap_Cons)
  have "align_loop (flat F) (fadj 0 F) pi' [?k..<?k + esize (Succ (Succ x))] (sh, m)
        = Inr (sh', amap ?k (lmap (int ?k + d) (Succ (Succ x))) m)"
    by (subst upt_succ) (rule align_loop_cons [OF m1 l'])
  moreover have "\<forall>j. ?k + esize (Succ (Succ x)) \<le> j \<and> j < length sh \<longrightarrow>
                sh' ! j = sh ! j + (int (esize (step (Succ (Succ x)))) - int (esize (Succ (Succ x))))"
    using post by simp
  ultimately show ?case using len by (intro exI [of _ sh']) simp
next
  case (4 a b)
  let ?k = "cpos C" and ?D = "comp C (Down ''succ'' Hole s)"
  let ?m1 = "m(?k \<mapsto> int ?k + d)"
  note at = at_succ [OF "4.prems"(1)]
  from "4.prems"(4) have d0: "sh ! ?k = d" by simp
  from "4.prems"(6) have mk: "m ?k = None" by simp
  from at(5) have "flat F ! Suc ?k = ''succ'' \<or> flat F ! Suc ?k = ''+''" by simp
  from an_succ_other [where m = m and pi' = pi' and sh = sh, OF at(2) _ at(3) _ this mk] at(1) at(4)
  have m1: "align_node (flat F) (fadj 0 F) pi' ?k (sh, m) = Inr (sh, ?m1)"
    by (simp add: d0)
  have uni: "\<forall>j. cpos ?D \<le> j \<and> j < cpos ?D + esize (Plus a b) \<longrightarrow> sh ! j = d"
    using "4.prems"(4) by simp
  have g: "root_label (Plus a b) = ''succ'' \<longrightarrow>
           flat F ! (pi' ! cpos ?D) \<noteq> ''+'' \<or> int (pi' ! cpos ?D) = int (cpos ?D) - 1"
    by simp
  have non: "\<forall>j. cpos ?D \<le> j \<and> j < cpos ?D + esize (Plus a b) \<longrightarrow> ?m1 j = None"
    using "4.prems"(6) by simp
  from "4.IH" [OF at(6) "4.prems"(2) "4.prems"(3) uni g non]
  obtain sh' where
    l: "align_loop (flat F) (fadj 0 F) pi' [cpos ?D..<cpos ?D + esize (Plus a b)] (sh, ?m1)
        = Inr (sh', amap (cpos ?D) (lmap (int (cpos ?D) + d) (Plus a b)) ?m1)"
    and len: "length sh' = length sh"
    and post: "\<forall>j. cpos ?D + esize (Plus a b) \<le> j \<and> j < length sh \<longrightarrow>
                sh' ! j = sh ! j + (int (esize (step (Plus a b))) - int (esize (Plus a b)))"
    by blast
  have l': "align_loop (flat F) (fadj 0 F) pi' [Suc ?k..<Suc ?k + esize (Plus a b)] (sh, ?m1)
        = Inr (sh', amap ?k (lmap (int ?k + d) (Succ (Plus a b))) m)"
    using l by (simp add: algebra_simps amap_Cons)
  have "align_loop (flat F) (fadj 0 F) pi' [?k..<?k + esize (Succ (Plus a b))] (sh, m)
        = Inr (sh', amap ?k (lmap (int ?k + d) (Succ (Plus a b))) m)"
    by (subst upt_succ) (rule align_loop_cons [OF m1 l'])
  moreover have "\<forall>j. ?k + esize (Succ (Plus a b)) \<le> j \<and> j < length sh \<longrightarrow>
                sh' ! j = sh ! j + (int (esize (step (Succ (Plus a b)))) - int (esize (Succ (Plus a b))))"
    using post by simp
  ultimately show ?case using len by (intro exI [of _ sh']) simp
next
  case (5 a z)
  let ?k = "cpos C" and ?r = "Suc (cpos C + esize a)"
  let ?D1 = "comp C (Down ''+'' Hole s)"
  note at = at_plus [OF "5.prems"(1)]
  from at(5) have labr: "flat F ! ?r = py_str z" by simp
  have par: "pi' ! Suc ?k = ?k"
    using parent_okD [OF "5.prems"(2), of ?k "Suc ?k"] at(1) at(3) by simp
  have g: "root_label a = ''succ'' \<longrightarrow>
           flat F ! (pi' ! cpos ?D1) \<noteq> ''+'' \<or> int (pi' ! cpos ?D1) = int (cpos ?D1) - 1"
    using par by simp
  from "5.prems"(4) have d0: "sh ! ?k = d" and dr: "sh ! ?r = d" by simp_all
  from "5.prems"(6) have mk: "m ?k = None" and mr: "m ?r = None" by simp_all
  from at(4) "5.prems"(3) have rlen: "?r < length sh" by simp
  have e1: "[?r..<?r + esize (Num z)] = [?r]" by (simp add: upt_rec)
  show ?case
  proof (cases "z = 0")
    case True
    let ?sh1 = "add_from (?r + 1) (- 1) (add_from ?k (- 1) sh)"
    let ?m1 = "m(?k \<mapsto> - 1, ?r \<mapsto> - 1)"
    from labr True have "flat F ! ?r = py_str 0" by simp
    from an_plus_zero [where m = m and pi' = pi' and sh = sh, OF at(2) _ at(3) _ this] at(1) at(4)
    have m1: "align_node (flat F) (fadj 0 F) pi' ?k (sh, m) = Inr (?sh1, ?m1)"
      by simp
    have len1: "length ?sh1 = fsize F" using "5.prems"(3) by simp
    have uni: "\<forall>j. cpos ?D1 \<le> j \<and> j < cpos ?D1 + esize a \<longrightarrow> ?sh1 ! j = d - 1"
      using "5.prems"(4) rlen by (simp add: nth_add_from)
    have non: "\<forall>j. cpos ?D1 \<le> j \<and> j < cpos ?D1 + esize a \<longrightarrow> ?m1 j = None"
      using "5.prems"(6) by simp
    from "5.IH"(1) [OF True at(6) "5.prems"(2) len1 uni g non]
    obtain sh' where
      l: "align_loop (flat F) (fadj 0 F) pi' [cpos ?D1..<cpos ?D1 + esize a] (?sh1, ?m1)
          = Inr (sh', amap (cpos ?D1) (lmap (int (cpos ?D1) + (d - 1)) a) ?m1)"
      and len: "length sh' = length ?sh1"
      and post: "\<forall>j. cpos ?D1 + esize a \<le> j \<and> j < length ?sh1 \<longrightarrow>
                  sh' ! j = ?sh1 ! j + (int (esize (step a)) - int (esize a))"
      by blast
    let ?m2 = "amap (Suc ?k) (lmap (int ?k + d) a) ?m1"
    have fin: "amap ?k (lmap (int ?k + d) (Plus a (Num z))) m = ?m2"
      using True by (simp add: amap_Cons amap_append amap_upd_out)
    have l': "align_loop (flat F) (fadj 0 F) pi' [Suc ?k..<Suc ?k + esize a] (?sh1, ?m1)
          = Inr (sh', ?m2)"
      using l by (simp add: algebra_simps)
    have "?m2 ?r = Some (- 1)" by (simp add: amap_out)
    from an_kept [where m = ?m2 and pi' = pi' and sh = sh', OF labr this]
    have "align_loop (flat F) (fadj 0 F) pi' [?r..<?r + esize (Num z)] (sh', ?m2) = Inr (sh', ?m2)"
      unfolding e1 by simp
    from align_loop_plus [OF m1 l' this]
    have "align_loop (flat F) (fadj 0 F) pi' [?k..<?k + esize (Plus a (Num z))] (sh, m)
          = Inr (sh', amap ?k (lmap (int ?k + d) (Plus a (Num z))) m)"
      unfolding fin .
    moreover have "\<forall>j. ?k + esize (Plus a (Num z)) \<le> j \<and> j < length sh \<longrightarrow>
        sh' ! j = sh ! j + (int (esize (step (Plus a (Num z)))) - int (esize (Plus a (Num z))))"
      using post True by (simp add: nth_add_from)
    ultimately show ?thesis using len by (intro exI [of _ sh']) simp
  next
    case False
    let ?sh1 = "add_from ?r 1 sh"
    let ?m1 = "m(?k \<mapsto> int ?k + d)"
    let ?da = "int (esize (step a)) - int (esize a)"
    from an_plus_num [where m = m and pi' = pi' and sh = sh, OF at(2) _ at(3) _ labr False mk] at(1) at(4)
    have m1: "align_node (flat F) (fadj 0 F) pi' ?k (sh, m) = Inr (?sh1, ?m1)"
      using rlen d0 by simp
    have len1: "length ?sh1 = fsize F" using "5.prems"(3) by simp
    have uni: "\<forall>j. cpos ?D1 \<le> j \<and> j < cpos ?D1 + esize a \<longrightarrow> ?sh1 ! j = d"
      using "5.prems"(4) rlen by (simp add: nth_add_from)
    have non: "\<forall>j. cpos ?D1 \<le> j \<and> j < cpos ?D1 + esize a \<longrightarrow> ?m1 j = None"
      using "5.prems"(6) by simp
    from "5.IH"(2) [OF False at(6) "5.prems"(2) len1 uni g non]
    obtain sh' where
      l: "align_loop (flat F) (fadj 0 F) pi' [cpos ?D1..<cpos ?D1 + esize a] (?sh1, ?m1)
          = Inr (sh', amap (cpos ?D1) (lmap (int (cpos ?D1) + d) a) ?m1)"
      and len: "length sh' = length ?sh1"
      and post: "\<forall>j. cpos ?D1 + esize a \<le> j \<and> j < length ?sh1 \<longrightarrow>
                  sh' ! j = ?sh1 ! j + ?da"
      by blast
    let ?m2 = "amap (Suc ?k) (lmap (int ?k + d + 1) a) ?m1"
    have l': "align_loop (flat F) (fadj 0 F) pi' [Suc ?k..<Suc ?k + esize a] (?sh1, ?m1)
          = Inr (sh', ?m2)"
      using l by (simp add: algebra_simps)
    have m2r: "?m2 ?r = None" using mr by (simp add: amap_out)
    from post rlen have "sh' ! ?r = ?sh1 ! ?r + ?da" by simp
    with rlen dr have shr: "int ?r + sh' ! ?r = int ?k + d + int (esize (step a)) + 2"
      by (simp add: nth_add_from)
    have fin: "amap ?k (lmap (int ?k + d) (Plus a (Num z))) m
               = ?m2(?r \<mapsto> int ?k + d + int (esize (step a)) + 2)"
      using False by (simp add: amap_Cons amap_append)
    from an_num [where m = ?m2 and pi' = pi' and sh = sh', OF labr m2r]
    have "align_loop (flat F) (fadj 0 F) pi' [?r..<?r + esize (Num z)] (sh', ?m2)
          = Inr (sh', ?m2(?r \<mapsto> int ?k + d + int (esize (step a)) + 2))"
      unfolding e1 shr by simp
    from align_loop_plus [OF m1 l' this]
    have "align_loop (flat F) (fadj 0 F) pi' [?k..<?k + esize (Plus a (Num z))] (sh, m)
          = Inr (sh', amap ?k (lmap (int ?k + d) (Plus a (Num z))) m)"
      unfolding fin .
    moreover have "\<forall>j. ?k + esize (Plus a (Num z)) \<le> j \<and> j < length sh \<longrightarrow>
        sh' ! j = sh ! j + (int (esize (step (Plus a (Num z)))) - int (esize (Plus a (Num z))))"
      using post False by (simp add: nth_add_from)
    ultimately show ?thesis using len by (intro exI [of _ sh']) simp
  qed
next
  case (6 a c)
  let ?k = "cpos C" and ?r = "Suc (cpos C + esize a)" and ?x = "Succ c"
  let ?D1 = "comp C (Down ''+'' Hole s)"
  let ?D2 = "comp C (Down ''+'' (Right (root_label a) (children a) Hole) s)"
  let ?D3 = "comp ?D2 (Down ''succ'' Hole E)"
  let ?da = "int (esize (step a)) - int (esize a)"
  let ?sh1 = "add_slice (?k + 1) (?r + 1) 1 sh"
  let ?m1 = "m(?r \<mapsto> - 1, ?k \<mapsto> int ?k + d)"
  note at = at_plus [OF "6.prems"(1)]
  have c2: "cpos ?D2 = ?r" by (simp add: esize_sub [of a])
  note ats = at_succ [OF at(7), unfolded c2]
  from at(5) have labr: "flat F ! ?r = ''succ''" by simp
  have par: "pi' ! Suc ?k = ?k"
    using parent_okD [OF "6.prems"(2), of ?k "Suc ?k"] at(1) at(3) by simp
  have parr: "pi' ! ?r = ?k"
    using parent_okD [OF "6.prems"(2), of ?k ?r] at(1) at(3) by simp
  have parc: "pi' ! Suc ?r = ?r"
    using parent_okD [OF "6.prems"(2), of ?r "Suc ?r"] ats(1) ats(3) by simp
  have g: "root_label a = ''succ'' \<longrightarrow>
           flat F ! (pi' ! cpos ?D1) \<noteq> ''+'' \<or> int (pi' ! cpos ?D1) = int (cpos ?D1) - 1"
    using par by simp
  from "6.prems"(4) have d0: "sh ! ?k = d" by simp
  from "6.prems"(6) have mk: "m ?k = None" by simp
  from at(4) "6.prems"(3) have rlen: "?r < length sh" by simp
  from an_plus_succ [where m = m and pi' = pi' and sh = sh, OF at(2) _ at(3) _ labr mk] at(1) at(4)
  have m1: "align_node (flat F) (fadj 0 F) pi' ?k (sh, m) = Inr (?sh1, ?m1)"
    using rlen d0 by simp
  have len1: "length ?sh1 = fsize F" using "6.prems"(3) by simp
  have uni: "\<forall>j. cpos ?D1 \<le> j \<and> j < cpos ?D1 + esize a \<longrightarrow> ?sh1 ! j = d + 1"
    using "6.prems"(4) rlen by (simp add: nth_add_slice)
  have non: "\<forall>j. cpos ?D1 \<le> j \<and> j < cpos ?D1 + esize a \<longrightarrow> ?m1 j = None"
    using "6.prems"(6) by simp
  from "6.IH"(1) [OF at(6) "6.prems"(2) len1 uni g non]
  obtain sh2 where
    l: "align_loop (flat F) (fadj 0 F) pi' [cpos ?D1..<cpos ?D1 + esize a] (?sh1, ?m1)
        = Inr (sh2, amap (cpos ?D1) (lmap (int (cpos ?D1) + (d + 1)) a) ?m1)"
    and len: "length sh2 = length ?sh1"
    and post: "\<forall>j. cpos ?D1 + esize a \<le> j \<and> j < length ?sh1 \<longrightarrow> sh2 ! j = ?sh1 ! j + ?da"
    by blast
  let ?m2 = "amap (Suc ?k) (lmap (int ?k + d + 2) a) ?m1"
  have l': "align_loop (flat F) (fadj 0 F) pi' [Suc ?k..<Suc ?k + esize a] (?sh1, ?m1)
        = Inr (sh2, ?m2)"
    using l by (simp add: algebra_simps)
  have m2r: "?m2 ?r = Some (- 1)" by (simp add: amap_out)
  have mr: "align_node (flat F) (fadj 0 F) pi' ?r (sh2, ?m2) = Inr (sh2, ?m2)"
    using labr at(2) parr m2r by (intro an_blocked) simp_all
  have c3: "cpos ?D3 = Suc ?r" by (simp add: esize_sub [of a])
  have le3: "Suc ?r + esize c \<le> length sh"
    using range_le [OF ats(6)] "6.prems"(3) unfolding c3 by simp
  have len2: "length sh2 = fsize F" using len "6.prems"(3) by simp
  have uni3: "\<forall>j. cpos ?D3 \<le> j \<and> j < cpos ?D3 + esize c \<longrightarrow> sh2 ! j = d + ?da"
    unfolding c3 using post "6.prems"(4) le3 by (simp add: nth_add_slice)
  have g3: "root_label c = ''succ'' \<longrightarrow>
           flat F ! (pi' ! cpos ?D3) \<noteq> ''+'' \<or> int (pi' ! cpos ?D3) = int (cpos ?D3) - 1"
    unfolding c3 using parc labr by simp
  have non3: "\<forall>j. cpos ?D3 \<le> j \<and> j < cpos ?D3 + esize c \<longrightarrow> ?m2 j = None"
    unfolding c3 using "6.prems"(6) by (simp add: amap_out)
  from "6.IH"(2) [OF ats(6) "6.prems"(2) len2 uni3 g3 non3]
  obtain sh3 where
    l3: "align_loop (flat F) (fadj 0 F) pi' [cpos ?D3..<cpos ?D3 + esize c] (sh2, ?m2)
        = Inr (sh3, amap (cpos ?D3) (lmap (int (cpos ?D3) + (d + ?da)) c) ?m2)"
    and len3: "length sh3 = length sh2"
    and post3: "\<forall>j. cpos ?D3 + esize c \<le> j \<and> j < length sh2 \<longrightarrow>
                  sh3 ! j = sh2 ! j + (int (esize (step c)) - int (esize c))"
    by blast
  have q3: "int (Suc ?r) + (d + ?da) = int ?k + d + 2 + int (esize (step a))" by simp
  have tw: "m(?k \<mapsto> int ?k + d, ?r \<mapsto> - 1) = ?m1"
    by (rule fun_upd_twist) simp
  have "amap ?k (lmap (int ?k + d) (Plus a ?x)) m
        = amap (Suc ?r) (lmap (int ?k + d + 2 + int (esize (step a))) c)
            (amap (Suc ?k) (lmap (int ?k + d + 2) a) (m(?k \<mapsto> int ?k + d, ?r \<mapsto> - 1)))"
    by (simp add: amap_Cons amap_append amap_upd_out algebra_simps)
  then have fin: "amap ?k (lmap (int ?k + d) (Plus a ?x)) m
             = amap (Suc ?r) (lmap (int ?k + d + 2 + int (esize (step a))) c) ?m2"
    unfolding tw .
  have l3': "align_loop (flat F) (fadj 0 F) pi' [Suc ?r..<Suc ?r + esize c] (sh2, ?m2)
        = Inr (sh3, amap (Suc ?r) (lmap (int ?k + d + 2 + int (esize (step a))) c) ?m2)"
    using l3 unfolding c3 q3 .
  have lx: "align_loop (flat F) (fadj 0 F) pi' [?r..<?r + esize ?x] (sh2, ?m2)
        = Inr (sh3, amap (Suc ?r) (lmap (int ?k + d + 2 + int (esize (step a))) c) ?m2)"
    by (subst upt_succ) (rule align_loop_cons [OF mr l3'])
  from align_loop_plus [OF m1 l' lx]
  have "align_loop (flat F) (fadj 0 F) pi' [?k..<?k + esize (Plus a ?x)] (sh, m)
        = Inr (sh3, amap ?k (lmap (int ?k + d) (Plus a ?x)) m)"
    unfolding fin .
  moreover have "\<forall>j. ?k + esize (Plus a ?x) \<le> j \<and> j < length sh \<longrightarrow>
      sh3 ! j = sh ! j + (int (esize (step (Plus a ?x))) - int (esize (Plus a ?x)))"
    using post post3 len unfolding c3 by (simp add: nth_add_slice)
  ultimately show ?case using len len3 by (intro exI [of _ sh3]) simp
next
  case (7 a b c)
  let ?k = "cpos C" and ?r = "Suc (cpos C + esize a)" and ?x = "Plus b c"
  let ?D1 = "comp C (Down ''+'' Hole s)"
  let ?D2 = "comp C (Down ''+'' (Right (root_label a) (children a) Hole) s)"
  let ?da = "int (esize (step a)) - int (esize a)"
  let ?m1 = "m(?k \<mapsto> int ?k + d)"
  note at = at_plus [OF "7.prems"(1)]
  from at(5) have labr: "flat F ! ?r = ''+''" by simp
  from "7.prems"(4) have d0: "sh ! ?k = d" by simp
  from "7.prems"(6) have mk: "m ?k = None" by simp
  have par: "pi' ! Suc ?k = ?k"
    using parent_okD [OF "7.prems"(2), of ?k "Suc ?k"] at(1) at(3) by simp
  have g: "root_label a = ''succ'' \<longrightarrow>
           flat F ! (pi' ! cpos ?D1) \<noteq> ''+'' \<or> int (pi' ! cpos ?D1) = int (cpos ?D1) - 1"
    using par by simp
  have m1: "align_node (flat F) (fadj 0 F) pi' ?k (sh, m) = Inr (sh, ?m1)"
    using an_plus_plus [where m = m and pi' = pi' and sh = sh, OF at(2) _ at(3) _ labr mk] at(1) at(4) d0 by simp
  have uni: "\<forall>j. cpos ?D1 \<le> j \<and> j < cpos ?D1 + esize a \<longrightarrow> sh ! j = d"
    using "7.prems"(4) by simp
  have non: "\<forall>j. cpos ?D1 \<le> j \<and> j < cpos ?D1 + esize a \<longrightarrow> ?m1 j = None"
    using "7.prems"(6) by simp
  from "7.IH"(1) [OF at(6) "7.prems"(2) "7.prems"(3) uni g non]
  obtain sh1 where
    l: "align_loop (flat F) (fadj 0 F) pi' [cpos ?D1..<cpos ?D1 + esize a] (sh, ?m1)
        = Inr (sh1, amap (cpos ?D1) (lmap (int (cpos ?D1) + d) a) ?m1)"
    and len: "length sh1 = length sh"
    and post: "\<forall>j. cpos ?D1 + esize a \<le> j \<and> j < length sh \<longrightarrow> sh1 ! j = sh ! j + ?da"
    by blast
  let ?m2 = "amap (Suc ?k) (lmap (int ?k + d + 1) a) ?m1"
  have c2: "cpos ?D2 = ?r" by (simp add: esize_sub [of a])
  have le2: "?r + esize ?x \<le> length sh"
    using range_le [OF at(7)] "7.prems"(3) unfolding c2 by simp
  have len1: "length sh1 = fsize F" using len "7.prems"(3) by simp
  have uni2: "\<forall>j. cpos ?D2 \<le> j \<and> j < cpos ?D2 + esize ?x \<longrightarrow> sh1 ! j = d + ?da"
    unfolding c2 using post "7.prems"(4) le2 by simp
  have g2: "root_label ?x = ''succ'' \<longrightarrow>
           flat F ! (pi' ! cpos ?D2) \<noteq> ''+'' \<or> int (pi' ! cpos ?D2) = int (cpos ?D2) - 1"
    by simp
  have non2: "\<forall>j. cpos ?D2 \<le> j \<and> j < cpos ?D2 + esize ?x \<longrightarrow> ?m2 j = None"
    unfolding c2 using "7.prems"(6) by (simp add: amap_out)
  from "7.IH"(2) [OF at(7) "7.prems"(2) len1 uni2 g2 non2]
  obtain sh2 where
    l2: "align_loop (flat F) (fadj 0 F) pi' [cpos ?D2..<cpos ?D2 + esize ?x] (sh1, ?m2)
        = Inr (sh2, amap (cpos ?D2) (lmap (int (cpos ?D2) + (d + ?da)) ?x) ?m2)"
    and len2: "length sh2 = length sh1"
    and post2: "\<forall>j. cpos ?D2 + esize ?x \<le> j \<and> j < length sh1 \<longrightarrow>
                  sh2 ! j = sh1 ! j + (int (esize (step ?x)) - int (esize ?x))"
    by blast
  have l': "align_loop (flat F) (fadj 0 F) pi' [Suc ?k..<Suc ?k + esize a] (sh, ?m1)
        = Inr (sh1, ?m2)"
    using l by (simp add: algebra_simps)
  have q2: "int ?r + (d + ?da) = int ?k + d + 1 + int (esize (step a))" by simp
  have fin: "amap ?k (lmap (int ?k + d) (Plus a ?x)) m
             = amap ?r (lmap (int ?k + d + 1 + int (esize (step a))) ?x) ?m2"
    by (simp add: amap_Cons amap_append algebra_simps)
  have l2': "align_loop (flat F) (fadj 0 F) pi' [?r..<?r + esize ?x] (sh1, ?m2)
        = Inr (sh2, amap ?r (lmap (int ?k + d + 1 + int (esize (step a))) ?x) ?m2)"
    using l2 unfolding c2 q2 .
  from align_loop_plus [OF m1 l' l2']
  have "align_loop (flat F) (fadj 0 F) pi' [?k..<?k + esize (Plus a ?x)] (sh, m)
        = Inr (sh2, amap ?k (lmap (int ?k + d) (Plus a ?x)) m)"
    unfolding fin .
  moreover have "\<forall>j. ?k + esize (Plus a ?x) \<le> j \<and> j < length sh \<longrightarrow>
      sh2 ! j = sh ! j + (int (esize (step (Plus a ?x))) - int (esize (Plus a ?x)))"
    using post post2 len unfolding c2 by simp
  ultimately show ?case using len len2 by (intro exI [of _ sh2]) simp
qed

section \<open>The merge loop on the alignment map\<close>

lemma cursor_after_append:
  "cursor_after j (xs @ ys) = cursor_after (cursor_after j xs) ys"
  by (induction xs arbitrary: j) auto

lemma ascending_append:
  "ascending j (xs @ ys) = (ascending j xs \<and> ascending (cursor_after j xs) ys)"
  by (induction xs arbitrary: j) auto

lemma ascending_le: "ascending j L \<Longrightarrow> j \<le> cursor_after j L"
proof (induction L arbitrary: j)
  case Nil
  then show ?case by simp
next
  case (Cons v vs)
  show ?case
  proof (cases "v < 0")
    case True
    with Cons show ?thesis by simp
  next
    case False
    with Cons.prems have "j \<le> v" "ascending (v + 1) vs" by simp_all
    with Cons.IH [of "v + 1"] False show ?thesis by simp
  qed
qed

lemma lmap_ascending:
  "0 \<le> j \<Longrightarrow> j \<le> q \<Longrightarrow>
     ascending j (lmap q e) \<and> cursor_after j (lmap q e) = q + int (esize (step e))"
proof (induction q e arbitrary: j rule: lmap.induct)
  case (1 q z)
  then show ?case by simp
next
  case (2 q z)
  then show ?case by simp
next
  case (3 q e)
  from 3 have "0 \<le> q + 1" by simp
  from "3.IH" [OF this order_refl] "3.prems" show ?case by simp
next
  case (4 q a b)
  from 4 have "0 \<le> q + 1" by simp
  from "4.IH" [OF this order_refl] "4.prems" show ?case by simp
next
  case (5 q a z)
  show ?case
  proof (cases "z = 0")
    case True
    from "5.IH"(1) [OF True "5.prems"] True show ?thesis
      by (simp add: ascending_append cursor_after_append)
  next
    case False
    from 5 have "0 \<le> q + 1" by simp
    from "5.IH"(2) [OF False this order_refl] False "5.prems" show ?thesis
      by (simp add: ascending_append cursor_after_append)
  qed
next
  case (6 q a c)
  from 6 have a: "0 \<le> q + 1" "q + 1 \<le> q + 2" by simp_all
  from 6 have c: "0 \<le> q + 2 + int (esize (step a))" by simp
  from "6.IH"(1) [OF a] "6.IH"(2) [OF c order_refl] "6.prems" show ?case
    by (simp add: ascending_append cursor_after_append)
next
  case (7 q a b c)
  from 7 have a: "0 \<le> q + 1" by simp
  from 7 have c: "0 \<le> q + 1 + int (esize (step a))" by simp
  have e1: "lmap q (Plus a (Plus b c))
            = q # lmap (q + 1) a @ lmap (q + 1 + int (esize (step a))) (Plus b c)"
    by simp
  have e2: "step (Plus a (Plus b c)) = Plus (step a) (step (Plus b c))" by simp
  from "7.IH"(1) [OF a order_refl] "7.IH"(2) [OF c order_refl] "7.prems" show ?case
    unfolding e1 e2 by (simp add: ascending_append cursor_after_append del: lmap.simps step.simps)
qed

lemma firsts_simps [simp]:
  "firsts [] = []" "firsts (xs @ ys) = firsts xs @ firsts ys"
  "firsts ((i, j) # xs) = (if i = - 1 then firsts xs else i # firsts xs)"
  by (simp_all add: firsts_def)

lemma seconds_simps [simp]:
  "seconds [] = []" "seconds (xs @ ys) = seconds xs @ seconds ys"
  "seconds ((i, j) # xs) = (if j = - 1 then seconds xs else j # seconds xs)"
  by (simp_all add: seconds_def)

lemma firsts_gap [simp]: "firsts (map (\<lambda>k. (- 1, k)) ks) = []"
  by (induction ks) auto

lemma seconds_gap: "0 \<le> j \<Longrightarrow> seconds (map (\<lambda>k. (- 1, k)) [j..v]) = [j..v]"
proof -
  assume "0 \<le> j"
  then have "\<forall>k \<in> set [j..v]. k \<noteq> - 1" by auto
  then show ?thesis by (simp add: seconds_def o_def)
qed

lemma upto_three: "j \<le> v \<Longrightarrow> v + 1 \<le> c \<Longrightarrow> [j..v - 1] @ v # [v + 1..c - 1] = [j..c - 1]"
proof -
  assume a: "j \<le> v" "v + 1 \<le> c"
  then have "[j..c - 1] = [j..v - 1] @ [v..c - 1]" by (intro upto_split1) simp_all
  moreover from a have "[v..c - 1] = v # [v + 1..c - 1]" by (simp add: upto_rec1)
  ultimately show ?thesis by simp
qed

lemma merge_loop_ascending:
  assumes "\<forall>i < length L. l (k + i) = Some (L ! i)" and "ascending j L" and "0 \<le> j"
  shows "\<exists>out. merge_loop l [k..<k + length L] j al = Inr (al @ out)
           \<and> firsts out = map int [k..<k + length L]
           \<and> seconds out = [j..cursor_after j L - 1]
           \<and> (- 1, - 1) \<notin> set out"
  using assms
proof (induction L arbitrary: k j al)
  case Nil
  then show ?case by simp
next
  case (Cons v vs)
  from Cons.prems(1) [rule_format, of 0] have lk: "l k = Some v" by simp
  have rest: "\<forall>i < length vs. l (Suc k + i) = Some (vs ! i)"
  proof (intro allI impI)
    fix i assume "i < length vs"
    with Cons.prems(1) [rule_format, of "Suc i"] have "l (k + Suc i) = Some ((v # vs) ! Suc i)"
      by simp
    then show "l (Suc k + i) = Some (vs ! i)" by simp
  qed
  have r: "[k..<k + length (v # vs)] = k # [Suc k..<Suc k + length vs]"
    using upt_node [of k "length vs"] by simp
  show ?case
  proof (cases "v < 0")
    case True
    with Cons.prems(2) have "ascending j vs" by simp
    from Cons.IH [OF rest this Cons.prems(3), of "al @ [(int k, - 1)]"]
    obtain out where
      o: "merge_loop l [Suc k..<Suc k + length vs] j (al @ [(int k, - 1)])
          = Inr ((al @ [(int k, - 1)]) @ out)"
      and f: "firsts out = map int [Suc k..<Suc k + length vs]"
      and s: "seconds out = [j..cursor_after j vs - 1]"
      and n: "(- 1, - 1) \<notin> set out"
      by blast
    have "merge_loop l [k..<k + length (v # vs)] j al = Inr (al @ (int k, - 1) # out)"
      unfolding r using o lk True by simp
    moreover have "firsts ((int k, - 1) # out) = map int [k..<k + length (v # vs)]"
      unfolding r using f by simp
    moreover have "seconds ((int k, - 1) # out) = [j..cursor_after j (v # vs) - 1]"
      using s True by simp
    moreover have "(- 1, - 1) \<notin> set ((int k, - 1) # out)" using n by simp
    ultimately show ?thesis by blast
  next
    case False
    with Cons.prems(2) have jv: "j \<le> v" and a: "ascending (v + 1) vs" by simp_all
    from jv Cons.prems(3) have v0: "0 \<le> v + 1" by simp
    let ?new = "map (\<lambda>x. (- 1, x)) [j..v - 1] @ [(int k, v)]"
    from Cons.IH [OF rest a v0, of "al @ ?new"]
    obtain out where
      o: "merge_loop l [Suc k..<Suc k + length vs] (v + 1) (al @ ?new) = Inr ((al @ ?new) @ out)"
      and f: "firsts out = map int [Suc k..<Suc k + length vs]"
      and s: "seconds out = [v + 1..cursor_after (v + 1) vs - 1]"
      and n: "(- 1, - 1) \<notin> set out"
      by blast
    from jv have mx: "max j v = v" by simp
    have "merge_loop l [k..<k + length (v # vs)] j al = Inr (al @ (?new @ out))"
      unfolding r using o lk False by (simp add: Let_def mx)
    moreover have "firsts (?new @ out) = map int [k..<k + length (v # vs)]"
      unfolding r using f by simp
    moreover have "seconds (?new @ out) = [j..cursor_after j (v # vs) - 1]"
    proof -
      from jv Cons.prems(3) have "v \<noteq> - 1" by simp
      then have "seconds (?new @ out) = [j..v - 1] @ v # [v + 1..cursor_after (v + 1) vs - 1]"
        using s seconds_gap [OF Cons.prems(3), of "v - 1"] by simp
      also have "\<dots> = [j..cursor_after (v + 1) vs - 1]"
        using jv ascending_le [OF a] by (rule upto_three)
      finally show ?thesis using False by simp
    qed
    moreover have "(- 1, - 1) \<notin> set (?new @ out)"
    proof -
      from Cons.prems(3) have "- 1 \<notin> set [j..v - 1]" by simp
      then have "(- 1, - 1) \<notin> set (map (\<lambda>x. (- 1, x)) [j..v - 1])" by (simp add: image_iff)
      moreover have "(- 1, - 1) \<noteq> (int k, v)" by simp
      ultimately show ?thesis using n by simp
    qed
    ultimately show ?thesis by blast
  qed
qed

lemma upto_nat: "[0..int n - 1] = map int [0..<n]"
proof (induction n)
  case 0
  then show ?case by simp
next
  case (Suc n)
  have "[0..int (Suc n) - 1] = [0..int n - 1] @ [int n]"
    using upto_rec2 [of 0 "int n"] by simp
  with Suc show ?case by simp
qed

lemma left_to_right_tree_of:
  "left_to_right_of (flat (T ''root'' (tr e E) E)) (fadj 0 (T ''root'' (tr e E) E))
     = Inr (amap 0 (0 # lmap 1 e) Map.empty)"
proof -
  let ?C = "Down ''root'' Hole E"
  let ?F = "T ''root'' (tr e E) E"
  have F: "?F = plug ?C (tr e E)" by simp
  from parents_enc [of ?F] obtain pi' where
    p: "parents (flat ?F) (fadj 0 ?F) = Inr pi'" and ok: "parent_ok (fadj 0 ?F) pi'"
    by blast
  let ?sh = "replicate (fsize ?F) (0::int)"
  let ?m0 = "Map.empty :: nat \<rightharpoonup> int"
  let ?m1 = "?m0(0 \<mapsto> 0)"
  have row0: "fadj 0 ?F ! 0 = [1]" by (simp add: kids_tr)
  have par: "pi' ! 1 = 0"
    using parent_okD [OF ok, of 0 1] row0 by simp
  have len: "length ?sh = fsize ?F" by simp
  have uni: "\<forall>j. cpos ?C \<le> j \<and> j < cpos ?C + esize e \<longrightarrow> ?sh ! j = 0"
  proof (intro allI impI)
    fix j assume "cpos ?C \<le> j \<and> j < cpos ?C + esize e"
    then have "j < fsize ?F" by simp
    then show "?sh ! j = 0" by (simp only: nth_replicate)
  qed
  have g: "root_label e = ''succ'' \<longrightarrow>
           flat ?F ! (pi' ! cpos ?C) \<noteq> ''+'' \<or> int (pi' ! cpos ?C) = int (cpos ?C) - 1"
    using par by simp
  have non: "\<forall>j. cpos ?C \<le> j \<and> j < cpos ?C + esize e \<longrightarrow> ?m1 j = None"
    by simp
  from align_range [OF F ok len uni g non] obtain sh' where
    l: "align_loop (flat ?F) (fadj 0 ?F) pi' [cpos ?C..<cpos ?C + esize e] (?sh, ?m1)
        = Inr (sh', amap (cpos ?C) (lmap (int (cpos ?C) + 0) e) ?m1)"
    by blast
  have l': "align_loop (flat ?F) (fadj 0 ?F) pi' [Suc 0..<Suc 0 + esize e] (?sh, ?m1)
        = Inr (sh', amap 0 (0 # lmap 1 e) ?m0)"
    using l by (simp add: amap_Cons)
  have "?sh ! 0 = 0" by simp
  with an_root [where m = ?m0 and k = 0 and pi' = pi' and sh = ?sh and nodes = "flat ?F"
      and adj = "fadj 0 ?F"]
  have m0: "align_node (flat ?F) (fadj 0 ?F) pi' 0 (?sh, ?m0) = Inr (?sh, ?m1)"
    by simp
  have "[0..<length (flat ?F)] = 0 # [Suc 0..<Suc 0 + esize e]"
    using upt_node [of 0 "esize e"] by simp
  then have "align_loop (flat ?F) (fadj 0 ?F) pi' [0..<length (flat ?F)] (?sh, ?m0)
             = Inr (sh', amap 0 (0 # lmap 1 e) ?m0)"
    using align_loop_cons [OF m0 l'] by simp
  then show ?thesis
    using p by (simp add: left_to_right_of_def)
qed

lemma peano_alignment_tree_of:
  "\<exists>al. peano_alignment (tree_of e) next_t = Inr al
     \<and> firsts al = map int [0..<length (fst (tree_of e))]
     \<and> seconds al = map int [0..<length (fst (tree_of (step e)))]
     \<and> (- 1, - 1) \<notin> set al"
proof -
  let ?L = "0 # lmap 1 e"
  let ?l = "amap 0 ?L Map.empty"
  have n: "length (fst (tree_of e)) = length ?L" by (simp add: tree_of_def enc_def)
  have n': "int (length (fst (tree_of (step e)))) = 1 + int (esize (step e))"
    by (simp add: tree_of_def enc_def)
  have a: "\<forall>i < length ?L. ?l (0 + i) = Some (?L ! i)" by (simp add: amap_def)
  from lmap_ascending [of 1 1 e] have asc: "ascending 0 ?L"
    and cur: "cursor_after 0 ?L = 1 + int (esize (step e))" by simp_all
  from merge_loop_ascending [OF a asc order_refl, of "[]"] obtain out where
    o: "merge_loop ?l [0..<0 + length ?L] 0 [] = Inr ([] @ out)"
    and f: "firsts out = map int [0..<0 + length ?L]"
    and s: "seconds out = [0..cursor_after 0 ?L - 1]"
    and x: "(- 1, - 1) \<notin> set out"
    by blast
  have "peano_alignment (tree_of e) next_t = Inr out"
    using o left_to_right_tree_of [of e] by (simp add: peano_alignment_def tree_of_def enc_def)
  moreover have "firsts out = map int [0..<length (fst (tree_of e))]"
    using f unfolding n by simp
  moreover have "seconds out = map int [0..<length (fst (tree_of (step e)))]"
    using s unfolding cur n' [symmetric] by (simp only: upto_nat)
  ultimately show ?thesis using x by blast
qed

text \<open>
  C5. For a tree \<open>t\<close> that a run of \<open>_simplify\<close> reaches from a well-formed input and the
  tree \<open>t'\<close> that the next pass makes of it, \<open>peano_alignment\<close> returns pairs whose first
  coordinates other than \<open>-1\<close> are the indices \<open>0, \<dots>, len(nodes) - 1\<close> of \<open>t\<close>, each once and
  in increasing order, whose second coordinates other than \<open>-1\<close> are the indices of \<open>t'\<close>,
  each once and in increasing order, and among which \<open>(-1, -1)\<close> does not occur.
\<close>

theorem alignment_covers:
  assumes "reach (tree_of e) t" and "matcher t = Inr s" and "s \<noteq> []"
    and "apply_script s t = Inr t'"
  shows "\<exists>al. peano_alignment t t' = Inr al
           \<and> firsts al = map int [0..<length (fst t)]
           \<and> seconds al = map int [0..<length (fst t')]
           \<and> (- 1, - 1) \<notin> set al"
proof -
  from reach_expr [OF assms(1)] obtain e' where t: "t = tree_of e'" by blast
  with assms(2,4) have "t' = tree_of (step e')"
    by (auto simp: matcher_tree_of apply_scr_tree_of)
  with t peano_alignment_tree_of [of e' t'] show ?thesis by simp
qed

theorem alignment_covers_witness:
  "reach (tree_of (Plus (Num 1) (Num 1))) (tree_of (Plus (Num 1) (Num 1)))
   \<and> matcher (tree_of (Plus (Num 1) (Num 1))) = Inr (scr 1 (Plus (Num 1) (Num 1)))
   \<and> scr 1 (Plus (Num 1) (Num 1)) \<noteq> []
   \<and> apply_script (scr 1 (Plus (Num 1) (Num 1))) (tree_of (Plus (Num 1) (Num 1)))
       = Inr (tree_of (step (Plus (Num 1) (Num 1))))
   \<and> (\<exists>al. peano_alignment (tree_of (Plus (Num 1) (Num 1))) (tree_of (step (Plus (Num 1) (Num 1))))
              = Inr al
         \<and> firsts al = map int [0..<length (fst (tree_of (Plus (Num 1) (Num 1))))]
         \<and> seconds al = map int [0..<length (fst (tree_of (step (Plus (Num 1) (Num 1)))))]
         \<and> (- 1, - 1) \<notin> set al)"
proof -
  let ?e = "Plus (Num 1) (Num 1)"
  have r: "reach (tree_of ?e) (tree_of ?e)" by (rule reach.start)
  have m: "matcher (tree_of ?e) = Inr (scr 1 ?e)" by (rule matcher_tree_of)
  have n: "scr 1 ?e \<noteq> []" by simp
  have a: "apply_script (scr 1 ?e) (tree_of ?e) = Inr (tree_of (step ?e))"
    by (rule apply_scr_tree_of)
  from alignment_covers [OF r m n a] r m n a show ?thesis by blast
qed

lemma alignment_example:
  "peano_alignment ([''root'', ''+'', ''1'', ''1''], [[1], [2, 3], [], []]) x
     = Inr [(0, 0), (1, 1), (2, 2), (- 1, 3), (3, 4)]"
  by code_simp

end
